theory Spec2Isabelle
  imports Main "HOL-Library.List_Lexorder" "HOL-Library.Code_Target_Nat"
begin

section \<open>Strings\<close>

text \<open>
  A JavaScript string is a sequence of UTF-16 code units. The automata library compares
  strings with \<open>===\<close>, indexes them by code unit (\<open>expr[i]\<close>) and uses the letters
  \<open>\<lambda>\<close> (U+03BB), \<open>\<epsilon>\<close> (U+03B5) and the empty-set sign (U+2205), none of which is
  a byte, so a string is modelled as the list of its code units.
\<close>

type_synonym ustring = "nat list"

definition ustr :: "string \<Rightarrow> ustring" where
  "ustr s = map of_char s"

definition LAMBDA :: ustring where
  "LAMBDA = [955]"

definition EPSILON :: ustring where
  "EPSILON = [949]"

definition EMPTYSET :: ustring where
  "EMPTYSET = [8709]"

text \<open>Decimal rendering of a counter inside a template literal.\<close>

function digits :: "nat \<Rightarrow> ustring" where
  "digits n = (if n < 10 then [48 + n] else digits (n div 10) @ [48 + n mod 10])"
  by pat_completeness auto
termination
  by (relation "measure (\<lambda>n. n)") auto

declare digits.simps [simp del]

text \<open>\<open>s.slice(a, b)\<close> for \<open>0 \<le> a \<le> length s\<close> and \<open>0 \<le> b \<le> length s\<close>.\<close>

definition slice :: "ustring \<Rightarrow> nat \<Rightarrow> nat \<Rightarrow> ustring" where
  "slice s a b = (if b \<le> a then [] else take (b - a) (drop a s))"

section \<open>Types for automata\<close>

record state =
  sid :: ustring
  isStart :: bool
  isAccept :: bool

record transition =
  tfrom :: ustring
  tto :: ustring
  symbol :: ustring

record automaton =
  states :: "state list"
  transitions :: "transition list"
  alphabet :: "ustring list"

text \<open>
  A JavaScript \<open>Set\<close> of strings is the list of its members in insertion order;
  \<open>add\<close> appends a member that is not there yet.
\<close>

definition set_add :: "'a \<Rightarrow> 'a list \<Rightarrow> 'a list" where
  "set_add x xs = (if x \<in> set xs then xs else xs @ [x])"

definition new_Set :: "'a list \<Rightarrow> 'a list" where
  "new_Set xs = fold set_add xs []"

section \<open>Regex to NFA-\<lambda> (Thompson's construction)\<close>

text \<open>
  The builder creates \<open>State\<close> objects and later clears their flags in place, while
  the same objects sit in the \<open>states\<close> arrays of the fragments. The objects are kept
  in a store: the object created when \<open>stateCounter\<close> was \<open>k\<close> is at index \<open>k\<close>, so
  \<open>stateCounter\<close> is the length of the store, and a fragment holds references.
\<close>

type_synonym heap = "state list"

record fragment =
  start :: nat
  accept :: nat
  fstates :: "nat list"
  ftransitions :: "transition list"

definition newState :: "bool \<Rightarrow> bool \<Rightarrow> heap \<Rightarrow> nat \<times> heap" where
  "newState isS isA h =
     (length h, h @ [\<lparr>sid = ustr ''q'' @ digits (length h), isStart = isS, isAccept = isA\<rparr>])"

definition clearStart :: "nat \<Rightarrow> heap \<Rightarrow> heap" where
  "clearStart r h = h[r := (h ! r)\<lparr>isStart := False\<rparr>]"

definition clearAccept :: "nat \<Rightarrow> heap \<Rightarrow> heap" where
  "clearAccept r h = h[r := (h ! r)\<lparr>isAccept := False\<rparr>]"

definition edge :: "heap \<Rightarrow> nat \<Rightarrow> nat \<Rightarrow> ustring \<Rightarrow> transition" where
  "edge h a b s = \<lparr>tfrom = sid (h ! a), tto = sid (h ! b), symbol = s\<rparr>"

definition createBasicNFA :: "ustring \<Rightarrow> heap \<Rightarrow> fragment \<times> heap" where
  "createBasicNFA c h =
     (case newState True False h of (s, h1) \<Rightarrow>
      case newState False True h1 of (a, h2) \<Rightarrow>
        (\<lparr>start = s, accept = a, fstates = [s, a],
          ftransitions = [edge h2 s a c]\<rparr>, h2))"

definition concatenate :: "fragment \<Rightarrow> fragment \<Rightarrow> heap \<Rightarrow> fragment \<times> heap" where
  "concatenate nfa1 nfa2 h =
     (let h1 = clearAccept (accept nfa1) h;
          h2 = clearStart (start nfa2) h1
      in (\<lparr>start = start nfa1, accept = accept nfa2,
           fstates = fstates nfa1 @ fstates nfa2,
           ftransitions = ftransitions nfa1 @ ftransitions nfa2 @
             [edge h2 (accept nfa1) (start nfa2) LAMBDA]\<rparr>, h2))"

definition union_nfa :: "fragment \<Rightarrow> fragment \<Rightarrow> heap \<Rightarrow> fragment \<times> heap" where
  "union_nfa nfa1 nfa2 h =
     (case newState True False h of (s, h1) \<Rightarrow>
      case newState False True h1 of (a, h2) \<Rightarrow>
      let h3 = clearStart (start nfa1) h2;
          h4 = clearStart (start nfa2) h3;
          h5 = clearAccept (accept nfa1) h4;
          h6 = clearAccept (accept nfa2) h5
      in (\<lparr>start = s, accept = a,
           fstates = [s] @ fstates nfa1 @ fstates nfa2 @ [a],
           ftransitions = ftransitions nfa1 @ ftransitions nfa2 @
             [edge h6 s (start nfa1) LAMBDA,
              edge h6 s (start nfa2) LAMBDA,
              edge h6 (accept nfa1) a LAMBDA,
              edge h6 (accept nfa2) a LAMBDA]\<rparr>, h6))"

definition kleeneStar :: "fragment \<Rightarrow> heap \<Rightarrow> fragment \<times> heap" where
  "kleeneStar nfa h =
     (case newState True False h of (s, h1) \<Rightarrow>
      case newState False True h1 of (a, h2) \<Rightarrow>
      let h3 = clearStart (start nfa) h2;
          h4 = clearAccept (accept nfa) h3
      in (\<lparr>start = s, accept = a,
           fstates = [s] @ fstates nfa @ [a],
           ftransitions = ftransitions nfa @
             [edge h4 s (start nfa) LAMBDA,
              edge h4 s a LAMBDA,
              edge h4 (accept nfa) (start nfa) LAMBDA,
              edge h4 (accept nfa) a LAMBDA]\<rparr>, h4))"

definition kleenePlus :: "fragment \<Rightarrow> heap \<Rightarrow> fragment \<times> heap" where
  "kleenePlus nfa h =
     (case newState True False h of (s, h1) \<Rightarrow>
      case newState False True h1 of (a, h2) \<Rightarrow>
      let h3 = clearStart (start nfa) h2;
          h4 = clearAccept (accept nfa) h3
      in (\<lparr>start = s, accept = a,
           fstates = [s] @ fstates nfa @ [a],
           ftransitions = ftransitions nfa @
             [edge h4 s (start nfa) LAMBDA,
              edge h4 (accept nfa) (start nfa) LAMBDA,
              edge h4 (accept nfa) a LAMBDA]\<rparr>, h4))"

definition optional :: "fragment \<Rightarrow> heap \<Rightarrow> fragment \<times> heap" where
  "optional nfa h =
     (case newState True False h of (s, h1) \<Rightarrow>
      case newState False True h1 of (a, h2) \<Rightarrow>
      let h3 = clearStart (start nfa) h2;
          h4 = clearAccept (accept nfa) h3
      in (\<lparr>start = s, accept = a,
           fstates = [s] @ fstates nfa @ [a],
           ftransitions = ftransitions nfa @
             [edge h4 s (start nfa) LAMBDA,
              edge h4 s a LAMBDA,
              edge h4 (accept nfa) a LAMBDA]\<rparr>, h4))"

text \<open>A parse token is a bare literal character or a fragment already built.\<close>

datatype token = Lit ustring | Frag fragment

fun toFragment :: "token \<Rightarrow> heap \<Rightarrow> fragment \<times> heap" where
  "toFragment (Lit s) h = createBasicNFA s h"
| "toFragment (Frag f) h = (f, h)"

text \<open>
  The callback of \<open>tokens.reduce\<close>, with \<open>null\<close> as \<open>None\<close>, and the reduction itself.
\<close>

definition reduceStep :: "fragment option \<times> heap \<Rightarrow> token \<Rightarrow> fragment option \<times> heap" where
  "reduceStep ah t =
     (case ah of (acc, h) \<Rightarrow>
      case toFragment t h of (frag, h1) \<Rightarrow>
      (case acc of
         None \<Rightarrow> (Some frag, h1)
       | Some a \<Rightarrow> (case concatenate a frag h1 of (c, h2) \<Rightarrow> (Some c, h2))))"

definition reduceTokens :: "token list \<Rightarrow> heap \<Rightarrow> fragment option \<times> heap" where
  "reduceTokens tokens h = foldl reduceStep (None, h) tokens"

text \<open>
  The inner loop that looks for the closing parenthesis: it returns the final \<open>j\<close>.
\<close>

function scanParen :: "ustring \<Rightarrow> nat \<Rightarrow> nat \<Rightarrow> nat" where
  "scanParen expr j depth =
     (if j < length expr \<and> depth > 0 then
        (let d1 = (if [expr ! j] = ustr ''('' then depth + 1 else depth);
             d2 = (if [expr ! j] = ustr '')'' then d1 - 1 else d1)
         in scanParen expr (j + 1) d2)
      else j)"
  by pat_completeness auto
termination
  by (relation "measure (\<lambda>(expr, j, depth). length expr - j)") auto

declare scanParen.simps [simp del]

lemma scanParen_ge: "j \<le> scanParen expr j depth"
proof (induction expr j depth rule: scanParen.induct)
  case (1 expr j depth)
  show ?case
  proof (cases "j < length expr \<and> depth > 0")
    case True
    have "scanParen expr j depth = scanParen expr (j + 1)
        (if [expr ! j] = ustr '')'' then (if [expr ! j] = ustr ''('' then depth + 1 else depth) - 1
         else (if [expr ! j] = ustr ''('' then depth + 1 else depth))"
      using True by (subst scanParen.simps) (simp add: Let_def)
    moreover have "j + 1 \<le> scanParen expr (j + 1)
        (if [expr ! j] = ustr '')'' then (if [expr ! j] = ustr ''('' then depth + 1 else depth) - 1
         else (if [expr ! j] = ustr ''('' then depth + 1 else depth))"
      by (rule "1.IH" [OF True refl refl])
    ultimately show ?thesis by simp
  next
    case False
    then show ?thesis by (subst scanParen.simps) auto
  qed
qed

text \<open>
  A postfix operator takes the last token off the array, turns it into a fragment
  and wraps it.
\<close>

definition applyPostfix ::
  "(fragment \<Rightarrow> heap \<Rightarrow> fragment \<times> heap) \<Rightarrow> token list \<Rightarrow> heap \<Rightarrow> token list \<times> heap" where
  "applyPostfix wrap tokens h =
     (case toFragment (last tokens) h of (f, h1) \<Rightarrow>
      case wrap f h1 of (g, h2) \<Rightarrow> (butlast tokens @ [Frag g], h2))"

function parse :: "ustring \<Rightarrow> heap \<Rightarrow> fragment \<times> heap"
  and parseLoop :: "ustring \<Rightarrow> nat \<Rightarrow> token list \<Rightarrow> heap \<Rightarrow> fragment \<times> heap" where
  "parse expr h =
     (if length expr = 0 then createBasicNFA LAMBDA h else parseLoop expr 0 [] h)"
| "parseLoop expr i tokens h =
     (if i < length expr then
        (if [expr ! i] = ustr ''('' then
           (case parse (slice expr (i + 1) (scanParen expr (i + 1) 1 - 1)) h of
              (f, h1) \<Rightarrow> parseLoop expr (scanParen expr (i + 1) 1) (tokens @ [Frag f]) h1)
         else if [expr ! i] = ustr ''*'' \<and> length tokens > 0 then
           (case applyPostfix kleeneStar tokens h of
              (tokens1, h1) \<Rightarrow> parseLoop expr (i + 1) tokens1 h1)
         else if [expr ! i] = ustr ''+'' \<and> length tokens > 0 then
           (case applyPostfix kleenePlus tokens h of
              (tokens1, h1) \<Rightarrow> parseLoop expr (i + 1) tokens1 h1)
         else if [expr ! i] = ustr ''?'' \<and> length tokens > 0 then
           (case applyPostfix optional tokens h of
              (tokens1, h1) \<Rightarrow> parseLoop expr (i + 1) tokens1 h1)
         else if [expr ! i] = ustr ''|'' then
           (case reduceTokens tokens h of
              (left, h1) \<Rightarrow>
                (case parse (slice expr (i + 1) (length expr)) h1 of
                   (right, h2) \<Rightarrow>
                     (case left of
                        Some l \<Rightarrow> union_nfa l right h2
                      | None \<Rightarrow> (right, h2))))
         else if [expr ! i] \<noteq> ustr '' '' then
           parseLoop expr (i + 1) (tokens @ [Lit [expr ! i]]) h
         else parseLoop expr (i + 1) tokens h)
      else
        (case reduceTokens tokens h of
           (Some f, h1) \<Rightarrow> (f, h1)
         | (None, h1) \<Rightarrow> createBasicNFA LAMBDA h1))"
  by pat_completeness auto
termination
  apply (relation "measures [\<lambda>x. case x of Inl (expr, h) \<Rightarrow> length expr
                                      | Inr (expr, i, tokens, h) \<Rightarrow> length expr,
                          \<lambda>x. case x of Inl (expr, h) \<Rightarrow> length expr + 1
                                      | Inr (expr, i, tokens, h) \<Rightarrow> length expr - i]")
  apply (auto simp: slice_def)
  subgoal for expr i
    using scanParen_ge [of "Suc i" expr "Suc 0"] by linarith
  done

declare parse.simps [simp del] parseLoop.simps [simp del]

definition regexToNFALambda :: "ustring \<Rightarrow> automaton" where
  "regexToNFALambda regex =
     (case parse regex [] of (result, h) \<Rightarrow>
        \<lparr>states = map (\<lambda>r. h ! r) (fstates result),
         transitions = ftransitions result,
         alphabet = new_Set (filter (\<lambda>s. s \<noteq> LAMBDA) (map symbol (ftransitions result)))\<rparr>)"

section \<open>Epsilon closure\<close>

text \<open>
  One turn of the \<open>forEach\<close> inside the loop: a target not yet in \<open>closure\<close> is added
  to it and pushed on the stack.
\<close>

definition closureStep ::
  "ustring list \<times> ustring list \<Rightarrow> transition \<Rightarrow> ustring list \<times> ustring list" where
  "closureStep cs t =
     (case cs of (closure, stack) \<Rightarrow>
        if tto t \<notin> set closure then (closure @ [tto t], stack @ [tto t])
        else (closure, stack))"

definition lambdaEdgesFrom :: "transition list \<Rightarrow> ustring \<Rightarrow> transition list" where
  "lambdaEdgesFrom trs s = filter (\<lambda>t. tfrom t = s \<and> symbol t = LAMBDA) trs"

lemma closureStep_pair:
  "closureStep (c, s) t =
     (if tto t \<in> set c then (c, s) else (c @ [tto t], s @ [tto t]))"
  by (simp add: closureStep_def)

lemma closureStep_fold_cases:
  assumes "foldl closureStep (c, s) ts = (c', s')"
    and "tto ` set ts \<subseteq> T" and "finite T"
  shows "(c' = c \<and> s' = s) \<or> card (T - set c') < card (T - set c)"
  using assms
proof (induction ts arbitrary: c s)
  case Nil
  then show ?case by simp
next
  case (Cons t ts)
  show ?case
  proof (cases "tto t \<in> set c")
    case True
    with Cons.prems have "foldl closureStep (c, s) ts = (c', s')"
      by (simp add: closureStep_pair)
    with Cons.IH Cons.prems show ?thesis by auto
  next
    case False
    with Cons.prems have run: "foldl closureStep (c @ [tto t], s @ [tto t]) ts = (c', s')"
      by (simp add: closureStep_pair)
    have mem: "tto t \<in> T - set c" using False Cons.prems by auto
    have fin: "finite (T - set c)" using Cons.prems(3) by simp
    have "T - set (c @ [tto t]) = (T - set c) - {tto t}" by auto
    then have less: "card (T - set (c @ [tto t])) < card (T - set c)"
      using card_Diff1_less [OF fin mem] by simp
    from Cons.IH [OF run] Cons.prems
    have "(c' = c @ [tto t] \<and> s' = s @ [tto t]) \<or>
          card (T - set c') < card (T - set (c @ [tto t]))"
      by auto
    with less show ?thesis by auto
  qed
qed

function epsilonClosureLoop ::
  "transition list \<Rightarrow> ustring list \<Rightarrow> ustring list \<Rightarrow> ustring list" where
  "epsilonClosureLoop trs closure stack =
     (if length stack > 0 then
        (case foldl closureStep (closure, butlast stack) (lambdaEdgesFrom trs (last stack)) of
           (closure1, stack1) \<Rightarrow> epsilonClosureLoop trs closure1 stack1)
      else closure)"
  by pat_completeness auto
termination
proof (relation "inv_image (less_than <*lex*> less_than)
    (\<lambda>(trs, closure, stack). (card (tto ` set trs - set closure), length stack))",
    goal_cases)
  case 1
  then show ?case by (intro wf_inv_image wf_lex_prod wf_less_than)
next
  case (2 trs closure stack x xa)
  have sub: "tto ` set (lambdaEdgesFrom trs (last stack)) \<subseteq> tto ` set trs"
    by (auto simp: lambdaEdgesFrom_def)
  have fin: "finite (tto ` set trs)" by simp
  from closureStep_fold_cases [OF 2(2) [symmetric] sub fin] 2(1)
  show ?case by (cases stack rule: rev_cases) auto
qed

declare epsilonClosureLoop.simps [simp del]

definition epsilonClosure :: "ustring list \<Rightarrow> transition list \<Rightarrow> ustring list" where
  "epsilonClosure sts trs = epsilonClosureLoop trs sts sts"

section \<open>NFA-\<lambda> to NFA\<close>

definition edgesOn :: "transition list \<Rightarrow> ustring \<Rightarrow> ustring \<Rightarrow> transition list" where
  "edgesOn trs s c = filter (\<lambda>t. tfrom t = s \<and> symbol t = c) trs"

text \<open>
  The set \<open>reachable\<close> for one state and one symbol: every member of the closure of an
  edge's target is added, for every edge on the symbol out of every member of the
  state's closure.
\<close>

definition reachableFrom :: "transition list \<Rightarrow> ustring list \<Rightarrow> ustring \<Rightarrow> ustring list" where
  "reachableFrom trs closure c =
     fold (\<lambda>s reachable.
             fold (\<lambda>t reachable. fold set_add (epsilonClosure [tto t] trs) reachable)
               (edgesOn trs s c) reachable)
       closure []"

definition pushNew :: "ustring \<Rightarrow> ustring \<Rightarrow> ustring \<Rightarrow> transition list \<Rightarrow> transition list" where
  "pushNew i c r newTransitions =
     (if \<not> list_ex (\<lambda>t. tfrom t = i \<and> tto t = r \<and> symbol t = c) newTransitions
      then newTransitions @ [\<lparr>tfrom = i, tto = r, symbol = c\<rparr>]
      else newTransitions)"

definition symbolStep ::
  "transition list \<Rightarrow> state \<Rightarrow> ustring list \<Rightarrow> ustring \<Rightarrow> transition list \<Rightarrow> transition list" where
  "symbolStep trs st closure c newTransitions =
     fold (pushNew (sid st) c) (reachableFrom trs closure c) newTransitions"

definition stateStep ::
  "transition list \<Rightarrow> ustring list \<Rightarrow> state \<Rightarrow> transition list \<Rightarrow> transition list" where
  "stateStep trs alph st newTransitions =
     (let closure = epsilonClosure [sid st] trs
      in fold (symbolStep trs st closure) alph newTransitions)"

definition hasAcceptInClosure :: "state list \<Rightarrow> transition list \<Rightarrow> state \<Rightarrow> bool" where
  "hasAcceptInClosure sts trs s =
     list_ex (\<lambda>i. case find (\<lambda>st. sid st = i) sts of
                     Some st \<Rightarrow> isAccept st
                   | None \<Rightarrow> False)
       (epsilonClosure [sid s] trs)"

definition nfaLambdaToNFA :: "automaton \<Rightarrow> automaton" where
  "nfaLambdaToNFA nfaLambda =
     (let sts = states nfaLambda;
          trs = transitions nfaLambda;
          alph = alphabet nfaLambda;
          newTransitions = fold (stateStep trs alph) sts [];
          newStates = map (\<lambda>s. s\<lparr>isAccept := isAccept s \<or> hasAcceptInClosure sts trs s\<rparr>) sts
      in \<lparr>states = newStates, transitions = newTransitions, alphabet = alph\<rparr>)"

section \<open>NFA to DFA (subset construction)\<close>

text \<open>\<open>a || b\<close> on strings: the empty string is the only falsy one.\<close>

definition orElse :: "ustring \<Rightarrow> ustring \<Rightarrow> ustring" where
  "orElse a b = (if a \<noteq> [] then a else b)"

text \<open>\<open>m.get(k) || b\<close>: \<open>undefined\<close> is falsy too.\<close>

definition getOrElse :: "ustring option \<Rightarrow> ustring \<Rightarrow> ustring" where
  "getOrElse a b = (case a of None \<Rightarrow> b | Some v \<Rightarrow> orElse v b)"

fun join :: "ustring list \<Rightarrow> ustring" where
  "join [] = []"
| "join [x] = x"
| "join (x # y # xs) = x @ ustr '','' @ join (y # xs)"

text \<open>
  \<open>[...set].sort().join(',')\<close>: the default sort orders strings by their code units.
\<close>

definition sortedKey :: "ustring list \<Rightarrow> ustring" where
  "sortedKey s = join (sort s)"

text \<open>
  A JavaScript \<open>Map\<close> is the list of its entries in insertion order, with one entry
  a key.
\<close>

type_synonym 'v jsmap = "(ustring \<times> 'v) list"

definition Map_has :: "'v jsmap \<Rightarrow> ustring \<Rightarrow> bool" where
  "Map_has m k = (k \<in> fst ` set m)"

definition Map_get :: "'v jsmap \<Rightarrow> ustring \<Rightarrow> 'v option" where
  "Map_get m k = map_of m k"

definition Map_set :: "ustring \<Rightarrow> 'v \<Rightarrow> 'v jsmap \<Rightarrow> 'v jsmap" where
  "Map_set k v m =
     (if Map_has m k then map (\<lambda>e. if fst e = k then (k, v) else e) m else m @ [(k, v)])"

definition setKey :: "ustring list \<Rightarrow> ustring" where
  "setKey s = orElse (sortedKey s) EMPTYSET"

definition anyAccept :: "state list \<Rightarrow> ustring list \<Rightarrow> bool" where
  "anyAccept sts s = list_ex (\<lambda>st. sid st \<in> set s \<and> isAccept st) sts"

definition nextSetOf :: "transition list \<Rightarrow> ustring list \<Rightarrow> ustring \<Rightarrow> ustring list" where
  "nextSetOf trs currentSet c =
     fold (\<lambda>stateId nextSet. fold (\<lambda>t nextSet. set_add (tto t) nextSet)
                                (edgesOn trs stateId c) nextSet)
       currentSet []"

text \<open>
  The state of the worklist loop: the map \<open>dfaStates\<close>, the array \<open>dfaTransitions\<close>
  and the queue.
\<close>

type_synonym dfaWork = "state jsmap \<times> transition list \<times> ustring list list"

definition dfaSymbolStep ::
  "state list \<Rightarrow> transition list \<Rightarrow> ustring list \<Rightarrow> ustring \<Rightarrow> ustring \<Rightarrow> dfaWork \<Rightarrow> dfaWork" where
  "dfaSymbolStep sts trs currentSet currentKey c w =
     (case w of (dfaStates, dfaTransitions, queue) \<Rightarrow>
      let nextSet = nextSetOf trs currentSet c;
          nextKey = setKey nextSet;
          fresh = (\<not> Map_has dfaStates nextKey \<and> length nextSet > 0);
          dfaStates1 = (if fresh
                        then Map_set nextKey
                               \<lparr>sid = nextKey, isStart = False,
                                isAccept = anyAccept sts nextSet\<rparr> dfaStates
                        else dfaStates);
          queue1 = (if fresh then queue @ [nextSet] else queue);
          dfaTransitions1 = (if length nextSet > 0
                             then dfaTransitions @
                                    [\<lparr>tfrom = currentKey, tto = nextKey, symbol = c\<rparr>]
                             else dfaTransitions)
      in (dfaStates1, dfaTransitions1, queue1))"

text \<open>
  The keys a successor subset can have: the successor subsets are duplicate-free lists of
  transition targets, so there are finitely many.
\<close>

definition subsetKeys :: "transition list \<Rightarrow> ustring set" where
  "subsetKeys trs = setKey ` {s. set s \<subseteq> tto ` set trs \<and> distinct s}"

lemma finite_subsetKeys: "finite (subsetKeys trs)"
  unfolding subsetKeys_def by (intro finite_imageI finite_subset_distinct) simp

lemma set_add_fold_targets:
  "distinct acc \<Longrightarrow> set acc \<subseteq> A \<Longrightarrow> tto ` set ts \<subseteq> A \<Longrightarrow>
   distinct (fold (\<lambda>t nextSet. set_add (tto t) nextSet) ts acc) \<and>
   set (fold (\<lambda>t nextSet. set_add (tto t) nextSet) ts acc) \<subseteq> A"
  by (induction ts arbitrary: acc) (auto simp: set_add_def)

lemma nextSetOf_fold_targets:
  "distinct acc \<Longrightarrow> set acc \<subseteq> tto ` set trs \<Longrightarrow>
   distinct (fold (\<lambda>stateId nextSet. fold (\<lambda>t nextSet. set_add (tto t) nextSet)
                                (edgesOn trs stateId c) nextSet) cur acc) \<and>
   set (fold (\<lambda>stateId nextSet. fold (\<lambda>t nextSet. set_add (tto t) nextSet)
                                (edgesOn trs stateId c) nextSet) cur acc) \<subseteq> tto ` set trs"
proof (induction cur arbitrary: acc)
  case Nil
  then show ?case by simp
next
  case (Cons x cur)
  have "tto ` set (edgesOn trs x c) \<subseteq> tto ` set trs"
    by (auto simp: edgesOn_def)
  from set_add_fold_targets [OF Cons.prems this]
  show ?case by (simp add: Cons.IH)
qed

lemma nextSetOf_key: "setKey (nextSetOf trs cur c) \<in> subsetKeys trs"
  using nextSetOf_fold_targets [of "[]" trs c cur]
  by (simp add: subsetKeys_def nextSetOf_def)

lemma dfaSymbolStep_states:
  "fst (dfaSymbolStep sts trs cur key c (ds, dt, q)) =
     (if \<not> Map_has ds (setKey (nextSetOf trs cur c)) \<and> length (nextSetOf trs cur c) > 0
      then ds @ [(setKey (nextSetOf trs cur c),
                  \<lparr>sid = setKey (nextSetOf trs cur c), isStart = False,
                   isAccept = anyAccept sts (nextSetOf trs cur c)\<rparr>)]
      else ds)"
  by (simp add: dfaSymbolStep_def Let_def Map_set_def)

lemma dfaSymbolStep_queue:
  "snd (snd (dfaSymbolStep sts trs cur key c (ds, dt, q))) =
     (if \<not> Map_has ds (setKey (nextSetOf trs cur c)) \<and> length (nextSetOf trs cur c) > 0
      then q @ [nextSetOf trs cur c]
      else q)"
  by (simp add: dfaSymbolStep_def Let_def)

lemma dfaSymbolStep_transitions:
  "fst (snd (dfaSymbolStep sts trs cur key c (ds, dt, q))) =
     (if length (nextSetOf trs cur c) > 0
      then dt @ [\<lparr>tfrom = key, tto = setKey (nextSetOf trs cur c), symbol = c\<rparr>]
      else dt)"
  by (simp add: dfaSymbolStep_def Let_def)

lemma dfaSymbolStep_cases:
  assumes "dfaSymbolStep sts trs cur key c (ds, dt, q) = (ds', dt', q')"
  shows "(fst ` set ds' = fst ` set ds \<and> q' = q) \<or>
         (\<exists>k. k \<in> subsetKeys trs \<and> k \<notin> fst ` set ds \<and> fst ` set ds' = insert k (fst ` set ds))"
proof (cases "\<not> Map_has ds (setKey (nextSetOf trs cur c)) \<and> length (nextSetOf trs cur c) > 0")
  case False
  have "fst (ds', dt', q') = ds"
    unfolding assms [symmetric] dfaSymbolStep_states by (rule if_not_P [OF False])
  moreover have "snd (snd (ds', dt', q')) = q"
    unfolding assms [symmetric] dfaSymbolStep_queue by (rule if_not_P [OF False])
  ultimately show ?thesis by simp
next
  case True
  have "fst (ds', dt', q') = ds @ [(setKey (nextSetOf trs cur c),
                  \<lparr>sid = setKey (nextSetOf trs cur c), isStart = False,
                   isAccept = anyAccept sts (nextSetOf trs cur c)\<rparr>)]"
    unfolding assms [symmetric] dfaSymbolStep_states by (rule if_P [OF True])
  then have "fst ` set ds' = insert (setKey (nextSetOf trs cur c)) (fst ` set ds)"
    by simp
  moreover have "setKey (nextSetOf trs cur c) \<notin> fst ` set ds"
    using True by (simp add: Map_has_def)
  ultimately have "setKey (nextSetOf trs cur c) \<in> subsetKeys trs \<and>
      setKey (nextSetOf trs cur c) \<notin> fst ` set ds \<and>
      fst ` set ds' = insert (setKey (nextSetOf trs cur c)) (fst ` set ds)"
    using nextSetOf_key by simp
  then show ?thesis by (intro disjI2 exI [of _ "setKey (nextSetOf trs cur c)"])
qed

lemma dfaSymbolStep_fold_cases:
  assumes "fold (dfaSymbolStep sts trs cur key) alph (ds, dt, q) = (ds', dt', q')"
  shows "(fst ` set ds' = fst ` set ds \<and> q' = q) \<or>
         card (subsetKeys trs - fst ` set ds') < card (subsetKeys trs - fst ` set ds)"
  using assms
proof (induction alph arbitrary: ds dt q)
  case Nil
  then show ?case by simp
next
  case (Cons c alph)
  obtain ds1 dt1 q1 where step: "dfaSymbolStep sts trs cur key c (ds, dt, q) = (ds1, dt1, q1)"
    by (cases "dfaSymbolStep sts trs cur key c (ds, dt, q)")
  with Cons.prems have rest:
    "fold (dfaSymbolStep sts trs cur key) alph (ds1, dt1, q1) = (ds', dt', q')"
    by simp
  note ih = Cons.IH [OF rest]
  from dfaSymbolStep_cases [OF step] show ?case
  proof (elim disjE conjE exE)
    assume e: "fst ` set ds1 = fst ` set ds" and q: "q1 = q"
    from ih show ?thesis unfolding e q .
  next
    fix k
    assume k: "k \<in> subsetKeys trs" "k \<notin> fst ` set ds"
      and ds1: "fst ` set ds1 = insert k (fst ` set ds)"
    have mem: "k \<in> subsetKeys trs - fst ` set ds" using k by simp
    have fin: "finite (subsetKeys trs - fst ` set ds)" using finite_subsetKeys by simp
    have "subsetKeys trs - insert k (fst ` set ds) = (subsetKeys trs - fst ` set ds) - {k}"
      by blast
    then have less:
      "card (subsetKeys trs - fst ` set ds1) < card (subsetKeys trs - fst ` set ds)"
      using card_Diff1_less [OF fin mem] unfolding ds1 by simp
    from ih show ?thesis
    proof
      assume "fst ` set ds' = fst ` set ds1 \<and> q' = q1"
      then have "card (subsetKeys trs - fst ` set ds') = card (subsetKeys trs - fst ` set ds1)"
        by simp
      with less show ?thesis by linarith
    next
      assume "card (subsetKeys trs - fst ` set ds') < card (subsetKeys trs - fst ` set ds1)"
      with less show ?thesis by linarith
    qed
  qed
qed

function nfaToDFALoop ::
  "state list \<Rightarrow> transition list \<Rightarrow> ustring list \<Rightarrow>
   state jsmap \<Rightarrow> transition list \<Rightarrow> ustring list list \<Rightarrow> state jsmap \<times> transition list" where
  "nfaToDFALoop sts trs alph dfaStates dfaTransitions queue =
     (if length queue > 0 then
        (case fold (dfaSymbolStep sts trs (hd queue) (setKey (hd queue))) alph
                (dfaStates, dfaTransitions, tl queue) of
           (dfaStates1, dfaTransitions1, queue1) \<Rightarrow>
             nfaToDFALoop sts trs alph dfaStates1 dfaTransitions1 queue1)
      else (dfaStates, dfaTransitions))"
  by pat_completeness auto
termination
proof (relation "inv_image (less_than <*lex*> less_than)
    (\<lambda>(sts, trs, alph, dfaStates, dfaTransitions, queue).
       (card (subsetKeys trs - fst ` set dfaStates), length queue))",
    goal_cases)
  case 1
  then show ?case by (intro wf_inv_image wf_lex_prod wf_less_than)
next
  case (2 sts trs alph dfaStates dfaTransitions queue x xa y z)
  from 2(2,3) have "fold (dfaSymbolStep sts trs (hd queue) (setKey (hd queue))) alph
          (dfaStates, dfaTransitions, tl queue) = (x, y, z)"
    by simp
  from dfaSymbolStep_fold_cases [OF this] 2(1)
  show ?case by (cases queue) auto
qed

declare nfaToDFALoop.simps [simp del]

text \<open>The renaming pass: \<open>stateMapping\<close> gives the \<open>n\<close>-th key of the map the id \<open>qn\<close>.\<close>

definition stateMappingOf :: "state jsmap \<Rightarrow> ustring jsmap" where
  "stateMappingOf dfaStates =
     fst (fold (\<lambda>e mc. case mc of (m, counter) \<Rightarrow>
                  (Map_set (fst e) (ustr ''q'' @ digits counter) m, counter + 1))
            dfaStates ([], 0))"

definition nfaToDFA :: "automaton \<Rightarrow> automaton" where
  "nfaToDFA nfa =
     (let sts = states nfa; trs = transitions nfa; alph = alphabet nfa in
      case find isStart sts of
        None \<Rightarrow> \<lparr>states = [], transitions = [], alphabet = alph\<rparr>
      | Some startState \<Rightarrow>
          (let startSet = [sid startState];
               startSetKey = sortedKey startSet;
               dfaStates0 = Map_set startSetKey
                              \<lparr>sid = orElse startSetKey EMPTYSET, isStart = True,
                               isAccept = anyAccept sts startSet\<rparr> []
           in case nfaToDFALoop sts trs alph dfaStates0 [] [startSet] of
                (dfaStates, dfaTransitions) \<Rightarrow>
                  (let stateMapping = stateMappingOf dfaStates;
                       renamedStates =
                         map (\<lambda>s. s\<lparr>sid := getOrElse (Map_get stateMapping (sid s)) (sid s)\<rparr>)
                           (map snd dfaStates);
                       renamedTransitions =
                         map (\<lambda>t. t\<lparr>tfrom := getOrElse (Map_get stateMapping (tfrom t)) (tfrom t),
                                     tto := getOrElse (Map_get stateMapping (tto t)) (tto t)\<rparr>)
                           dfaTransitions
                   in \<lparr>states = renamedStates, transitions = renamedTransitions,
                       alphabet = alph\<rparr>)))"

section \<open>String matching\<close>

text \<open>
  \<open>for (const symbol of input)\<close> walks the string by code points: a high surrogate
  followed by a low surrogate is one symbol of two code units.
\<close>

fun codePoints :: "ustring \<Rightarrow> ustring list" where
  "codePoints [] = []"
| "codePoints [x] = [[x]]"
| "codePoints (x # y # xs) =
     (if 55296 \<le> x \<and> x \<le> 56319 \<and> 56320 \<le> y \<and> y \<le> 57343
      then [x, y] # codePoints xs
      else [x] # codePoints (y # xs))"

text \<open>
  The walk over the symbols: \<open>None\<close> when no transition matches (the early
  \<open>return false\<close>), else the state reached.
\<close>

fun walk :: "transition list \<Rightarrow> ustring \<Rightarrow> ustring list \<Rightarrow> ustring option" where
  "walk trs currentState [] = Some currentState"
| "walk trs currentState (c # cs) =
     (case find (\<lambda>t. tfrom t = currentState \<and> symbol t = c) trs of
        None \<Rightarrow> None
      | Some transition \<Rightarrow> walk trs (tto transition) cs)"

definition validateString :: "automaton \<Rightarrow> ustring \<Rightarrow> bool" where
  "validateString dfa input =
     (case find isStart (states dfa) of
        None \<Rightarrow> False
      | Some startState \<Rightarrow>
          (case walk (transitions dfa) (sid startState) (codePoints input) of
             None \<Rightarrow> False
           | Some currentState \<Rightarrow>
               (case find (\<lambda>s. sid s = currentState) (states dfa) of
                  None \<Rightarrow> False
                | Some finalState \<Rightarrow> isAccept finalState)))"

section \<open>Edge list to NFA-\<lambda>\<close>

text \<open>
  The code units that \<open>trim\<close> strips and that \<open>\s\<close> matches (white space and line
  terminators), and the ones the dot of a regular expression does not match (line
  terminators).
\<close>

definition isWhiteSpace :: "nat \<Rightarrow> bool" where
  "isWhiteSpace c \<longleftrightarrow>
     c \<in> {9, 10, 11, 12, 13, 32, 160, 5760, 8232, 8233, 8239, 8287, 12288, 65279}
     \<or> (8192 \<le> c \<and> c \<le> 8202)"

definition isLineTerminator :: "nat \<Rightarrow> bool" where
  "isLineTerminator c \<longleftrightarrow> c \<in> {10, 13, 8232, 8233}"

definition trim :: "ustring \<Rightarrow> ustring" where
  "trim s = rev (dropWhile isWhiteSpace (rev (dropWhile isWhiteSpace s)))"

text \<open>\<open>s.split('\n')\<close>: the pieces between line feeds; the last argument is the piece
  being read.\<close>

fun splitLines :: "ustring \<Rightarrow> ustring \<Rightarrow> ustring list" where
  "splitLines cur [] = [cur]"
| "splitLines cur (c # cs) =
     (if c = 10 then cur # splitLines [] cs else splitLines (cur @ [c]) cs)"

text \<open>
  \<open>s.split(re)\<close> for a regular expression: \<open>m\<close> gives the length of the match of
  \<open>re\<close> that starts at the head of its argument, if there is one. The loop keeps the
  piece \<open>S[p..q]\<close> read so far and the rest \<open>S[q..]\<close>; a match that would end at \<open>p\<close>
  advances \<open>q\<close> by one instead.
\<close>

function regexSplitLoop :: "(ustring \<Rightarrow> nat option) \<Rightarrow> ustring \<Rightarrow> ustring \<Rightarrow> ustring list" where
  "regexSplitLoop m cur rest =
     (case rest of
        [] \<Rightarrow> [cur]
      | c # cs \<Rightarrow>
          (case m rest of
             None \<Rightarrow> regexSplitLoop m (cur @ [c]) cs
           | Some n \<Rightarrow>
               if n = 0 \<and> cur = [] then regexSplitLoop m (cur @ [c]) cs
               else cur # regexSplitLoop m [] (drop n rest)))"
  by pat_completeness auto
termination
  by (relation "measures [\<lambda>(m, cur, rest). length rest, \<lambda>(m, cur, rest). length cur]") auto

declare regexSplitLoop.simps [simp del]

definition regexSplit :: "(ustring \<Rightarrow> nat option) \<Rightarrow> ustring \<Rightarrow> ustring list" where
  "regexSplit m s = regexSplitLoop m [] s"

text \<open>
  The separator \<open>/\s*,\s*/\<close> at the head of a string: a run of white space, a comma, a
  run of white space. Both runs are greedy, and giving white space back cannot bring
  a comma nearer.
\<close>

definition sepComma :: "ustring \<Rightarrow> nat option" where
  "sepComma rest =
     (case dropWhile isWhiteSpace rest of
        [] \<Rightarrow> None
      | c # r \<Rightarrow>
          if c = 44 then Some (length rest - length (dropWhile isWhiteSpace r)) else None)"

text \<open>The separator \<open>/\s*,\s*|\s+/\<close>: the first alternative, else a run of white space.\<close>

definition sepCommaOrSpace :: "ustring \<Rightarrow> nat option" where
  "sepCommaOrSpace rest =
     (case sepComma rest of
        Some n \<Rightarrow> Some n
      | None \<Rightarrow>
          (let n = length rest - length (dropWhile isWhiteSpace rest)
           in if n > 0 then Some n else None))"

text \<open>
  Matching under the flag \<open>i\<close>: the patterns are ASCII, and a code unit outside ASCII
  never folds to an ASCII letter, so two code units agree when their ASCII upper cases do.
\<close>

definition upperASCII :: "nat \<Rightarrow> nat" where
  "upperASCII c = (if 97 \<le> c \<and> c \<le> 122 then c - 32 else c)"

definition prefixIgnoreCase :: "ustring \<Rightarrow> ustring \<Rightarrow> bool" where
  "prefixIgnoreCase kw s =
     (length kw \<le> length s \<and> map upperASCII (take (length kw) s) = map upperASCII kw)"

text \<open>
  \<open>\s*(.+)\<close> at the head of a string: the white space run is tried at its full length
  first and one shorter each time; the group needs a first code unit that is not a line
  terminator and takes all that follow up to the next line terminator.
\<close>

definition captureRest :: "ustring \<Rightarrow> ustring option" where
  "captureRest t =
     (case filter (\<lambda>k. k < length t \<and> \<not> isLineTerminator (t ! k))
             (rev [0 ..< length (takeWhile isWhiteSpace t) + 1]) of
        [] \<Rightarrow> None
      | k # _ \<Rightarrow> Some (takeWhile (\<lambda>c. \<not> isLineTerminator c) (drop k t)))"

text \<open>\<open>line.match(/kw\s*(.+)/i)\<close>: the group of the leftmost match, if there is one.\<close>

fun matchDirective :: "ustring \<Rightarrow> ustring \<Rightarrow> ustring option" where
  "matchDirective kw [] = None"
| "matchDirective kw (c # cs) =
     (if prefixIgnoreCase kw (c # cs) then
        (case captureRest (drop (length kw) (c # cs)) of
           Some g \<Rightarrow> Some g
         | None \<Rightarrow> matchDirective kw cs)
      else matchDirective kw cs)"

text \<open>The state of the first pass: the map \<open>states\<close>, \<open>transitions\<close> and \<open>alphabet\<close>.\<close>

type_synonym edgeWork = "state jsmap \<times> transition list \<times> ustring list"

definition edgeLine :: "nat \<times> ustring \<Rightarrow> edgeWork \<Rightarrow> edgeWork" where
  "edgeLine il w =
     (case il of (index, line) \<Rightarrow>
      case w of (sts, trs, alph) \<Rightarrow>
      let parts = regexSplit sepCommaOrSpace (trim line) in
      if length parts \<ge> 3 then
        (let from = parts ! 0; sy = parts ! 1; to = parts ! 2;
             sts1 = (if \<not> Map_has sts from
                     then Map_set from
                            \<lparr>sid = from, isStart = (index = 0 \<and> \<not> Map_has sts from),
                             isAccept = False\<rparr> sts
                     else sts);
             sts2 = (if \<not> Map_has sts1 to
                     then Map_set to \<lparr>sid = to, isStart = False, isAccept = False\<rparr> sts1
                     else sts1);
             trs1 = trs @ [\<lparr>tfrom = from, tto = to,
                             symbol = (if sy = ustr ''e'' \<or> sy = EPSILON then LAMBDA else sy)\<rparr>];
             alph1 = (if sy \<noteq> LAMBDA \<and> sy \<noteq> ustr ''e'' \<and> sy \<noteq> EPSILON
                      then set_add sy alph else alph)
         in (sts2, trs1, alph1))
      else (sts, trs, alph))"

text \<open>
  The objects of the map are the objects of \<open>stateArray\<close>, so a flag set through either
  is set in the entry of the map.
\<close>

definition markAccept :: "ustring \<Rightarrow> state jsmap \<Rightarrow> state jsmap" where
  "markAccept k sts = map (\<lambda>e. if fst e = k then (fst e, (snd e)\<lparr>isAccept := True\<rparr>) else e) sts"

definition acceptLine :: "ustring \<Rightarrow> state jsmap \<Rightarrow> state jsmap" where
  "acceptLine line sts =
     (case (case matchDirective (ustr ''accept:'') line of
              Some g \<Rightarrow> Some g
            | None \<Rightarrow> matchDirective (ustr ''final:'') line) of
        None \<Rightarrow> sts
      | Some g \<Rightarrow> fold (\<lambda>s sts. markAccept (trim s) sts) (regexSplit sepComma g) sts)"

definition markFirstStart :: "state jsmap \<Rightarrow> state jsmap" where
  "markFirstStart sts =
     (case sts of [] \<Rightarrow> [] | e # es \<Rightarrow> (fst e, (snd e)\<lparr>isStart := True\<rparr>) # es)"

definition markLastAccept :: "state jsmap \<Rightarrow> state jsmap" where
  "markLastAccept sts =
     (if \<not> list_ex (\<lambda>e. isAccept (snd e)) sts \<and> length sts > 0
      then butlast sts @ [(fst (last sts), (snd (last sts))\<lparr>isAccept := True\<rparr>)]
      else sts)"

definition parseEdgeList :: "ustring \<Rightarrow> automaton" where
  "parseEdgeList input =
     (let lines = filter (\<lambda>l. trim l \<noteq> []) (splitLines [] (trim input)) in
      case fold edgeLine (enumerate 0 lines) ([], [], []) of
        (sts, trs, alph) \<Rightarrow>
          \<lparr>states = map snd (markLastAccept (fold acceptLine lines (markFirstStart sts))),
           transitions = trs,
           alphabet = alph\<rparr>)"

section \<open>The transformations on the object store\<close>

text \<open>
  To say what a call of \<open>nfaLambdaToNFA\<close> or \<open>nfaToDFA\<close> does to the objects of its
  caller, the two functions are written once more, statement by statement, over a store of
  objects. The store keeps the objects of each kind apart, since an object never changes
  its kind: \<open>State\<close> objects, \<open>Transition\<close> objects, arrays of references (\<open>State[]\<close>,
  \<open>Transition[]\<close>, \<open>Set<string>[]\<close>), collections of strings (\<open>string[]\<close> and
  \<open>Set<string>\<close>, each the list of its members), the maps from strings to states and to
  strings, and \<open>Automaton\<close> objects. A reference is the index of its object among the
  objects of its kind; a new object goes to the end. Strings and numbers are values.

  Every read of a field, an element or a member goes to the store as it is when the
  statement runs. A temporary that no statement has a name for is a value: the array that
  \<open>filter\<close> returns, the array literal under \<open>new Set([x])\<close>, and the array of \<open>map\<close>
  until \<open>map\<close> returns it. A write at a reference that is not in the store leaves the
  store as it is; the two functions write at the references they have read from the store
  or got from an allocation.
\<close>

type_synonym addr = nat

record store =
  stateObjs :: "state list"
  transitionObjs :: "transition list"
  refArrays :: "addr list list"
  strLists :: "ustring list list"
  stateMaps :: "addr jsmap list"
  stringMaps :: "ustring jsmap list"
  automata :: "(addr \<times> addr \<times> addr) list"

subsection \<open>Creating objects\<close>

definition newStateObj :: "state \<Rightarrow> store \<Rightarrow> addr \<times> store" where
  "newStateObj st s = (length (stateObjs s), s\<lparr>stateObjs := stateObjs s @ [st]\<rparr>)"

definition newTransitionObj :: "transition \<Rightarrow> store \<Rightarrow> addr \<times> store" where
  "newTransitionObj t s = (length (transitionObjs s), s\<lparr>transitionObjs := transitionObjs s @ [t]\<rparr>)"

definition newRefArray :: "addr list \<Rightarrow> store \<Rightarrow> addr \<times> store" where
  "newRefArray rs s = (length (refArrays s), s\<lparr>refArrays := refArrays s @ [rs]\<rparr>)"

definition newStrList :: "ustring list \<Rightarrow> store \<Rightarrow> addr \<times> store" where
  "newStrList xs s = (length (strLists s), s\<lparr>strLists := strLists s @ [xs]\<rparr>)"

definition newStateMap :: "store \<Rightarrow> addr \<times> store" where
  "newStateMap s = (length (stateMaps s), s\<lparr>stateMaps := stateMaps s @ [[]]\<rparr>)"

definition newStringMap :: "store \<Rightarrow> addr \<times> store" where
  "newStringMap s = (length (stringMaps s), s\<lparr>stringMaps := stringMaps s @ [[]]\<rparr>)"

definition newAutomaton :: "addr \<Rightarrow> addr \<Rightarrow> addr \<Rightarrow> store \<Rightarrow> addr \<times> store" where
  "newAutomaton sa ta aa s = (length (automata s), s\<lparr>automata := automata s @ [(sa, ta, aa)]\<rparr>)"

subsection \<open>Writing to objects\<close>

text \<open>
  The methods that change their receiver: \<open>push\<close> and \<open>shift\<close> on an array of
  references, \<open>add\<close> on a set of strings, \<open>push\<close>, \<open>pop\<close> and \<open>sort\<close> on an array of
  strings, \<open>set\<close> on the two kinds of maps.
\<close>

definition pushRef :: "addr \<Rightarrow> addr \<Rightarrow> store \<Rightarrow> store" where
  "pushRef a r s = s\<lparr>refArrays := (refArrays s)[a := refArrays s ! a @ [r]]\<rparr>"

definition shiftRef :: "addr \<Rightarrow> store \<Rightarrow> addr \<times> store" where
  "shiftRef a s =
     (hd (refArrays s ! a), s\<lparr>refArrays := (refArrays s)[a := tl (refArrays s ! a)]\<rparr>)"

definition addStr :: "addr \<Rightarrow> ustring \<Rightarrow> store \<Rightarrow> store" where
  "addStr a x s = s\<lparr>strLists := (strLists s)[a := set_add x (strLists s ! a)]\<rparr>"

definition pushStr :: "addr \<Rightarrow> ustring \<Rightarrow> store \<Rightarrow> store" where
  "pushStr a x s = s\<lparr>strLists := (strLists s)[a := strLists s ! a @ [x]]\<rparr>"

definition popStr :: "addr \<Rightarrow> store \<Rightarrow> ustring \<times> store" where
  "popStr a s =
     (last (strLists s ! a), s\<lparr>strLists := (strLists s)[a := butlast (strLists s ! a)]\<rparr>)"

definition sortStr :: "addr \<Rightarrow> store \<Rightarrow> store" where
  "sortStr a s = s\<lparr>strLists := (strLists s)[a := sort (strLists s ! a)]\<rparr>"

definition setStateMap :: "addr \<Rightarrow> ustring \<Rightarrow> addr \<Rightarrow> store \<Rightarrow> store" where
  "setStateMap a k r s = s\<lparr>stateMaps := (stateMaps s)[a := Map_set k r (stateMaps s ! a)]\<rparr>"

definition setStringMap :: "addr \<Rightarrow> ustring \<Rightarrow> ustring \<Rightarrow> store \<Rightarrow> store" where
  "setStringMap a k v s = s\<lparr>stringMaps := (stringMaps s)[a := Map_set k v (stringMaps s ! a)]\<rparr>"

subsection \<open>Reading an automaton\<close>

definition readStates :: "store \<Rightarrow> addr \<Rightarrow> state list" where
  "readStates s a = map (\<lambda>r. stateObjs s ! r) (refArrays s ! a)"

definition readTransitions :: "store \<Rightarrow> addr \<Rightarrow> transition list" where
  "readTransitions s a = map (\<lambda>r. transitionObjs s ! r) (refArrays s ! a)"

definition readAutomaton :: "store \<Rightarrow> addr \<Rightarrow> automaton" where
  "readAutomaton s a =
     (case automata s ! a of (sa, ta, aa) \<Rightarrow>
        \<lparr>states = readStates s sa, transitions = readTransitions s ta,
         alphabet = strLists s ! aa\<rparr>)"

text \<open>
  An automaton of the store: every reference it holds is the reference of an object of
  the store.
\<close>

definition isAutomaton :: "store \<Rightarrow> addr \<Rightarrow> bool" where
  "isAutomaton s a \<longleftrightarrow>
     a < length (automata s) \<and>
     (case automata s ! a of (sa, ta, aa) \<Rightarrow>
        sa < length (refArrays s) \<and> ta < length (refArrays s) \<and> aa < length (strLists s) \<and>
        list_all (\<lambda>r. r < length (stateObjs s)) (refArrays s ! sa) \<and>
        list_all (\<lambda>r. r < length (transitionObjs s)) (refArrays s ! ta))"

subsection \<open>Epsilon closure\<close>

text \<open>
  \<open>transitions.filter(t => t.from === st && t.symbol === c)\<close>: the references of the
  array it returns. The array is not written to, so it is not kept in the store.
\<close>

definition edgesOn_store :: "store \<Rightarrow> addr \<Rightarrow> ustring \<Rightarrow> ustring \<Rightarrow> addr list" where
  "edgesOn_store s transitionsRef st c =
     filter (\<lambda>t. tfrom (transitionObjs s ! t) = st \<and> symbol (transitionObjs s ! t) = c)
       (refArrays s ! transitionsRef)"

definition closureVisit_store :: "addr \<Rightarrow> addr \<Rightarrow> addr \<Rightarrow> store \<Rightarrow> store" where
  "closureVisit_store closure stack t s =
     (if tto (transitionObjs s ! t) \<notin> set (strLists s ! closure)
      then pushStr stack (tto (transitionObjs s ! t))
             (addStr closure (tto (transitionObjs s ! t)) s)
      else s)"

text \<open>The loop may run for ever as far as its definition goes: \<open>None\<close> is no return.\<close>

partial_function (option) epsilonClosureLoop_store ::
  "addr \<Rightarrow> addr \<Rightarrow> addr \<Rightarrow> store \<Rightarrow> store option" where
  "epsilonClosureLoop_store transitionsRef closure stack s =
     (if length (strLists s ! stack) > 0 then
        (case popStr stack s of
           (state, s1) \<Rightarrow>
             epsilonClosureLoop_store transitionsRef closure stack
               (fold (closureVisit_store closure stack)
                  (edgesOn_store s1 transitionsRef state LAMBDA) s1))
      else Some s)"

definition epsilonClosure_store :: "addr \<Rightarrow> addr \<Rightarrow> store \<Rightarrow> (addr \<times> store) option" where
  "epsilonClosure_store statesRef transitionsRef s =
     (case newStrList (strLists s ! statesRef) s of (closure, s1) \<Rightarrow>
      case newStrList (strLists s1 ! statesRef) s1 of (stack, s2) \<Rightarrow>
      case epsilonClosureLoop_store transitionsRef closure stack s2 of
        None \<Rightarrow> None
      | Some s3 \<Rightarrow> Some (closure, s3))"

subsection \<open>NFA-\<lambda> to NFA\<close>

text \<open>
  \<open>xs.forEach(f)\<close> where the callback may not return. The members are those at the start
  of the loop.
\<close>

fun forEach :: "'a list \<Rightarrow> ('a \<Rightarrow> store \<Rightarrow> store option) \<Rightarrow> store \<Rightarrow> store option" where
  "forEach [] f s = Some s"
| "forEach (x # xs) f s = (case f x s of None \<Rightarrow> None | Some s1 \<Rightarrow> forEach xs f s1)"

text \<open>
  The innermost callback: \<open>epsilonClosure(new Set([t.to]), transitions).forEach(r =>
  reachable.add(r))\<close>.
\<close>

definition reachVisit_store :: "addr \<Rightarrow> addr \<Rightarrow> addr \<Rightarrow> store \<Rightarrow> store option" where
  "reachVisit_store transitionsRef reachable t s =
     (case newStrList [tto (transitionObjs s ! t)] s of (seed, s1) \<Rightarrow>
      case epsilonClosure_store seed transitionsRef s1 of
        None \<Rightarrow> None
      | Some (closure, s2) \<Rightarrow> Some (fold (addStr reachable) (strLists s2 ! closure) s2))"

definition memberVisit_store :: "addr \<Rightarrow> addr \<Rightarrow> ustring \<Rightarrow> ustring \<Rightarrow> store \<Rightarrow> store option" where
  "memberVisit_store transitionsRef reachable c m s =
     forEach (edgesOn_store s transitionsRef m c) (reachVisit_store transitionsRef reachable) s"

definition pushNew_store :: "addr \<Rightarrow> addr \<Rightarrow> ustring \<Rightarrow> ustring \<Rightarrow> store \<Rightarrow> store" where
  "pushNew_store newTransitions stateRef c r s =
     (if \<not> list_ex (\<lambda>t. tfrom t = sid (stateObjs s ! stateRef) \<and> tto t = r \<and> symbol t = c)
              (readTransitions s newTransitions)
      then (case newTransitionObj
                   \<lparr>tfrom = sid (stateObjs s ! stateRef), tto = r, symbol = c\<rparr> s of
              (t, s1) \<Rightarrow> pushRef newTransitions t s1)
      else s)"

definition symbolStep_store ::
  "addr \<Rightarrow> addr \<Rightarrow> addr \<Rightarrow> addr \<Rightarrow> ustring \<Rightarrow> store \<Rightarrow> store option" where
  "symbolStep_store transitionsRef newTransitions stateRef closure c s =
     (case newStrList [] s of (reachable, s1) \<Rightarrow>
      case forEach (strLists s1 ! closure) (memberVisit_store transitionsRef reachable c) s1 of
        None \<Rightarrow> None
      | Some s2 \<Rightarrow>
          Some (fold (pushNew_store newTransitions stateRef c) (strLists s2 ! reachable) s2))"

definition stateStep_store :: "addr \<Rightarrow> addr \<Rightarrow> addr \<Rightarrow> addr \<Rightarrow> store \<Rightarrow> store option" where
  "stateStep_store transitionsRef alphabetRef newTransitions stateRef s =
     (case newStrList [sid (stateObjs s ! stateRef)] s of (seed, s1) \<Rightarrow>
      case epsilonClosure_store seed transitionsRef s1 of
        None \<Rightarrow> None
      | Some (closure, s2) \<Rightarrow>
          forEach (strLists s2 ! alphabetRef)
            (symbolStep_store transitionsRef newTransitions stateRef closure) s2)"

text \<open>The callback of \<open>states.map\<close>: it returns a new object.\<close>

definition newStateOf_store :: "addr \<Rightarrow> addr \<Rightarrow> addr \<Rightarrow> store \<Rightarrow> (addr \<times> store) option" where
  "newStateOf_store statesRef transitionsRef r s =
     (case newStrList [sid (stateObjs s ! r)] s of (seed, s1) \<Rightarrow>
      case epsilonClosure_store seed transitionsRef s1 of
        None \<Rightarrow> None
      | Some (closure, s2) \<Rightarrow>
          Some (newStateObj
                  ((stateObjs s2 ! r)
                     \<lparr>isAccept := isAccept (stateObjs s2 ! r) \<or>
                        list_ex (\<lambda>i. case find (\<lambda>st. sid st = i) (readStates s2 statesRef) of
                                        Some st \<Rightarrow> isAccept st
                                      | None \<Rightarrow> False)
                          (strLists s2 ! closure)\<rparr>) s2))"

text \<open>\<open>xs.map(f)\<close> for a callback that returns an object: the references returned.\<close>

fun mapRefs ::
  "addr list \<Rightarrow> (addr \<Rightarrow> store \<Rightarrow> (addr \<times> store) option) \<Rightarrow> store \<Rightarrow> (addr list \<times> store) option" where
  "mapRefs [] f s = Some ([], s)"
| "mapRefs (r # rs) f s =
     (case f r s of
        None \<Rightarrow> None
      | Some (x, s1) \<Rightarrow>
          (case mapRefs rs f s1 of
             None \<Rightarrow> None
           | Some (xs, s2) \<Rightarrow> Some (x # xs, s2)))"

definition nfaLambdaToNFA_store :: "addr \<Rightarrow> store \<Rightarrow> (addr \<times> store) option" where
  "nfaLambdaToNFA_store nfaLambda s =
     (case automata s ! nfaLambda of (statesRef, transitionsRef, alphabetRef) \<Rightarrow>
      case newRefArray [] s of (newTransitions, s1) \<Rightarrow>
      case forEach (refArrays s1 ! statesRef)
             (stateStep_store transitionsRef alphabetRef newTransitions) s1 of
        None \<Rightarrow> None
      | Some s2 \<Rightarrow>
          (case mapRefs (refArrays s2 ! statesRef)
                  (newStateOf_store statesRef transitionsRef) s2 of
             None \<Rightarrow> None
           | Some (rs, s3) \<Rightarrow>
               (case newRefArray rs s3 of (newStates, s4) \<Rightarrow>
                  Some (newAutomaton newStates newTransitions alphabetRef s4))))"

subsection \<open>NFA to DFA\<close>

text \<open>\<open>[...members].sort().join(',')\<close>: the copy is a new array, sorted in place.\<close>

definition sortedKey_store :: "addr \<Rightarrow> store \<Rightarrow> ustring \<times> store" where
  "sortedKey_store members s =
     (case newStrList (strLists s ! members) s of (copy, s1) \<Rightarrow>
      case sortStr copy s1 of s2 \<Rightarrow> (join (strLists s2 ! copy), s2))"

text \<open>\<open>states.some(s => members.has(s.id) && s.isAccept)\<close>\<close>

definition anyAccept_store :: "addr \<Rightarrow> addr \<Rightarrow> store \<Rightarrow> bool" where
  "anyAccept_store statesRef members s =
     list_ex (\<lambda>r. sid (stateObjs s ! r) \<in> set (strLists s ! members) \<and> isAccept (stateObjs s ! r))
       (refArrays s ! statesRef)"

definition nextVisit_store :: "addr \<Rightarrow> addr \<Rightarrow> ustring \<Rightarrow> ustring \<Rightarrow> store \<Rightarrow> store" where
  "nextVisit_store transitionsRef nextSet c stateId s =
     fold (\<lambda>t s. addStr nextSet (tto (transitionObjs s ! t)) s)
       (edgesOn_store s transitionsRef stateId c) s"

text \<open>The body of \<open>alphabet.forEach\<close> in the worklist loop.\<close>

definition dfaSymbolStep_store ::
  "addr \<Rightarrow> addr \<Rightarrow> addr \<Rightarrow> addr \<Rightarrow> addr \<Rightarrow> addr \<Rightarrow> ustring \<Rightarrow> ustring \<Rightarrow> store \<Rightarrow> store" where
  "dfaSymbolStep_store statesRef transitionsRef dfaStates dfaTransitions queue currentSet
       currentKey c s =
     (case newStrList [] s of (nextSet, s1) \<Rightarrow>
      case fold (nextVisit_store transitionsRef nextSet c) (strLists s1 ! currentSet) s1 of s2 \<Rightarrow>
      case sortedKey_store nextSet s2 of (k, s3) \<Rightarrow>
      case orElse k EMPTYSET of nextKey \<Rightarrow>
      case (if \<not> Map_has (stateMaps s3 ! dfaStates) nextKey \<and> length (strLists s3 ! nextSet) > 0
            then (case newStateObj \<lparr>sid = nextKey, isStart = False,
                                    isAccept = anyAccept_store statesRef nextSet s3\<rparr> s3 of
                    (st, s4) \<Rightarrow> pushRef queue nextSet (setStateMap dfaStates nextKey st s4))
            else s3) of s5 \<Rightarrow>
      if length (strLists s5 ! nextSet) > 0
      then (case newTransitionObj \<lparr>tfrom = currentKey, tto = nextKey, symbol = c\<rparr> s5 of
              (t, s6) \<Rightarrow> pushRef dfaTransitions t s6)
      else s5)"

partial_function (option) nfaToDFALoop_store ::
  "addr \<Rightarrow> addr \<Rightarrow> addr \<Rightarrow> addr \<Rightarrow> addr \<Rightarrow> addr \<Rightarrow> store \<Rightarrow> store option" where
  "nfaToDFALoop_store statesRef transitionsRef alphabetRef dfaStates dfaTransitions queue s =
     (if length (refArrays s ! queue) > 0 then
        (case shiftRef queue s of (currentSet, s1) \<Rightarrow>
         case sortedKey_store currentSet s1 of (k, s2) \<Rightarrow>
           nfaToDFALoop_store statesRef transitionsRef alphabetRef dfaStates dfaTransitions queue
             (fold (dfaSymbolStep_store statesRef transitionsRef dfaStates dfaTransitions queue
                      currentSet (orElse k EMPTYSET))
                (strLists s2 ! alphabetRef) s2))
      else Some s)"

text \<open>
  The renaming pass. The callback of \<open>dfaStates.forEach\<close> writes to the map
  \<open>stateMapping\<close> and to the variable \<open>counter\<close>.
\<close>

definition renameVisit_store :: "addr \<Rightarrow> ustring \<times> addr \<Rightarrow> store \<times> nat \<Rightarrow> store \<times> nat" where
  "renameVisit_store stateMapping e sc =
     (case sc of (s, counter) \<Rightarrow>
        (setStringMap stateMapping (fst e) (ustr ''q'' @ digits counter) s, counter + 1))"

definition renamedStateOf_store :: "addr \<Rightarrow> addr \<Rightarrow> store \<Rightarrow> addr \<times> store" where
  "renamedStateOf_store stateMapping r s =
     newStateObj
       ((stateObjs s ! r)
          \<lparr>sid := getOrElse (Map_get (stringMaps s ! stateMapping) (sid (stateObjs s ! r)))
                   (sid (stateObjs s ! r))\<rparr>) s"

definition renamedTransitionOf_store :: "addr \<Rightarrow> addr \<Rightarrow> store \<Rightarrow> addr \<times> store" where
  "renamedTransitionOf_store stateMapping r s =
     newTransitionObj
       ((transitionObjs s ! r)
          \<lparr>tfrom := getOrElse (Map_get (stringMaps s ! stateMapping) (tfrom (transitionObjs s ! r)))
                     (tfrom (transitionObjs s ! r)),
            tto := getOrElse (Map_get (stringMaps s ! stateMapping) (tto (transitionObjs s ! r)))
                     (tto (transitionObjs s ! r))\<rparr>) s"

text \<open>\<open>xs.map(f)\<close> for a callback that returns a new object and always returns.\<close>

fun mapObjs :: "addr list \<Rightarrow> (addr \<Rightarrow> store \<Rightarrow> addr \<times> store) \<Rightarrow> store \<Rightarrow> addr list \<times> store" where
  "mapObjs [] f s = ([], s)"
| "mapObjs (r # rs) f s =
     (case f r s of (x, s1) \<Rightarrow> case mapObjs rs f s1 of (xs, s2) \<Rightarrow> (x # xs, s2))"

definition nfaToDFA_store :: "addr \<Rightarrow> store \<Rightarrow> (addr \<times> store) option" where
  "nfaToDFA_store nfa s =
     (case automata s ! nfa of (statesRef, transitionsRef, alphabetRef) \<Rightarrow>
      case find (\<lambda>r. isStart (stateObjs s ! r)) (refArrays s ! statesRef) of
        None \<Rightarrow>
          (case newRefArray [] s of (noStates, s1) \<Rightarrow>
           case newRefArray [] s1 of (noTransitions, s2) \<Rightarrow>
             Some (newAutomaton noStates noTransitions alphabetRef s2))
      | Some startState \<Rightarrow>
          (case newStateMap s of (dfaStates, s1) \<Rightarrow>
           case newRefArray [] s1 of (dfaTransitions, s2) \<Rightarrow>
           case newRefArray [] s2 of (queue, s3) \<Rightarrow>
           case newStrList [sid (stateObjs s3 ! startState)] s3 of (startSet, s4) \<Rightarrow>
           case sortedKey_store startSet s4 of (startSetKey, s5) \<Rightarrow>
           case newStateObj \<lparr>sid = orElse startSetKey EMPTYSET, isStart = True,
                              isAccept = anyAccept_store statesRef startSet s5\<rparr> s5 of
             (st, s6) \<Rightarrow>
           case nfaToDFALoop_store statesRef transitionsRef alphabetRef dfaStates dfaTransitions
                  queue (pushRef queue startSet (setStateMap dfaStates startSetKey st s6)) of
             None \<Rightarrow> None
           | Some s7 \<Rightarrow>
               (case newStringMap s7 of (stateMapping, s8) \<Rightarrow>
                case fold (renameVisit_store stateMapping) (stateMaps s8 ! dfaStates) (s8, 0) of
                  (s9, counter) \<Rightarrow>
                case newRefArray (map snd (stateMaps s9 ! dfaStates)) s9 of (vals, s10) \<Rightarrow>
                case mapObjs (refArrays s10 ! vals) (renamedStateOf_store stateMapping) s10 of
                  (rs, s11) \<Rightarrow>
                case newRefArray rs s11 of (renamedStates, s12) \<Rightarrow>
                case mapObjs (refArrays s12 ! dfaTransitions)
                       (renamedTransitionOf_store stateMapping) s12 of
                  (ts, s13) \<Rightarrow>
                case newRefArray ts s13 of (renamedTransitions, s14) \<Rightarrow>
                  Some (newAutomaton renamedStates renamedTransitions alphabetRef s14))))"

subsection \<open>What a call leaves as it was\<close>

text \<open>
  A store extends another one when every object of the other one is in it, at the same
  reference and with the same contents: each kind of object of the first store is an
  initial segment of the same kind in the second.
\<close>

definition extends :: "store \<Rightarrow> store \<Rightarrow> bool" where
  "extends h s \<longleftrightarrow>
     take (length (stateObjs h)) (stateObjs s) = stateObjs h \<and>
     take (length (transitionObjs h)) (transitionObjs s) = transitionObjs h \<and>
     take (length (refArrays h)) (refArrays s) = refArrays h \<and>
     take (length (strLists h)) (strLists s) = strLists h \<and>
     take (length (stateMaps h)) (stateMaps s) = stateMaps h \<and>
     take (length (stringMaps h)) (stringMaps s) = stringMaps h \<and>
     take (length (automata h)) (automata s) = automata h"

text \<open>A store with one automaton: \<open>q0\<close> goes to \<open>q1\<close> on \<open>\<lambda>\<close>, and \<open>q1\<close> to itself on \<open>a\<close>.\<close>

definition exampleStore :: store where
  "exampleStore =
     \<lparr>stateObjs = [\<lparr>sid = ustr ''q0'', isStart = True, isAccept = False\<rparr>,
                   \<lparr>sid = ustr ''q1'', isStart = False, isAccept = True\<rparr>],
      transitionObjs = [\<lparr>tfrom = ustr ''q0'', tto = ustr ''q1'', symbol = LAMBDA\<rparr>,
                        \<lparr>tfrom = ustr ''q1'', tto = ustr ''q1'', symbol = ustr ''a''\<rparr>],
      refArrays = [[0, 1], [0, 1]],
      strLists = [[ustr ''a'']],
      stateMaps = [],
      stringMaps = [],
      automata = [(0, 1, 0)]\<rparr>"

section \<open>The automata of the worked example\<close>

text \<open>
  The three automata of the regex \<open>(a|b)*abb\<close>, written out: the NFA-\<lambda> of
  Thompson's construction, the NFA without \<lambda> edges and the DFA.
\<close>

definition abb_nfaLambda :: automaton where
  "abb_nfaLambda =
     \<lparr>states =
        [\<lparr>sid = ustr ''q6'', isStart = True, isAccept = False\<rparr>,
         \<lparr>sid = ustr ''q4'', isStart = False, isAccept = False\<rparr>,
         \<lparr>sid = ustr ''q0'', isStart = False, isAccept = False\<rparr>,
         \<lparr>sid = ustr ''q1'', isStart = False, isAccept = False\<rparr>,
         \<lparr>sid = ustr ''q2'', isStart = False, isAccept = False\<rparr>,
         \<lparr>sid = ustr ''q3'', isStart = False, isAccept = False\<rparr>,
         \<lparr>sid = ustr ''q5'', isStart = False, isAccept = False\<rparr>,
         \<lparr>sid = ustr ''q7'', isStart = False, isAccept = False\<rparr>,
         \<lparr>sid = ustr ''q8'', isStart = False, isAccept = False\<rparr>,
         \<lparr>sid = ustr ''q9'', isStart = False, isAccept = False\<rparr>,
         \<lparr>sid = ustr ''q10'', isStart = False, isAccept = False\<rparr>,
         \<lparr>sid = ustr ''q11'', isStart = False, isAccept = False\<rparr>,
         \<lparr>sid = ustr ''q12'', isStart = False, isAccept = False\<rparr>,
         \<lparr>sid = ustr ''q13'', isStart = False, isAccept = True\<rparr>],
     transitions =
        [\<lparr>tfrom = ustr ''q0'', tto = ustr ''q1'', symbol = ustr ''a''\<rparr>,
         \<lparr>tfrom = ustr ''q2'', tto = ustr ''q3'', symbol = ustr ''b''\<rparr>,
         \<lparr>tfrom = ustr ''q4'', tto = ustr ''q0'', symbol = LAMBDA\<rparr>,
         \<lparr>tfrom = ustr ''q4'', tto = ustr ''q2'', symbol = LAMBDA\<rparr>,
         \<lparr>tfrom = ustr ''q1'', tto = ustr ''q5'', symbol = LAMBDA\<rparr>,
         \<lparr>tfrom = ustr ''q3'', tto = ustr ''q5'', symbol = LAMBDA\<rparr>,
         \<lparr>tfrom = ustr ''q6'', tto = ustr ''q4'', symbol = LAMBDA\<rparr>,
         \<lparr>tfrom = ustr ''q6'', tto = ustr ''q7'', symbol = LAMBDA\<rparr>,
         \<lparr>tfrom = ustr ''q5'', tto = ustr ''q4'', symbol = LAMBDA\<rparr>,
         \<lparr>tfrom = ustr ''q5'', tto = ustr ''q7'', symbol = LAMBDA\<rparr>,
         \<lparr>tfrom = ustr ''q8'', tto = ustr ''q9'', symbol = ustr ''a''\<rparr>,
         \<lparr>tfrom = ustr ''q7'', tto = ustr ''q8'', symbol = LAMBDA\<rparr>,
         \<lparr>tfrom = ustr ''q10'', tto = ustr ''q11'', symbol = ustr ''b''\<rparr>,
         \<lparr>tfrom = ustr ''q9'', tto = ustr ''q10'', symbol = LAMBDA\<rparr>,
         \<lparr>tfrom = ustr ''q12'', tto = ustr ''q13'', symbol = ustr ''b''\<rparr>,
         \<lparr>tfrom = ustr ''q11'', tto = ustr ''q12'', symbol = LAMBDA\<rparr>],
     alphabet = [ustr ''a'', ustr ''b'']\<rparr>"

definition abb_nfa :: automaton where
  "abb_nfa =
     \<lparr>states =
        [\<lparr>sid = ustr ''q6'', isStart = True, isAccept = False\<rparr>,
         \<lparr>sid = ustr ''q4'', isStart = False, isAccept = False\<rparr>,
         \<lparr>sid = ustr ''q0'', isStart = False, isAccept = False\<rparr>,
         \<lparr>sid = ustr ''q1'', isStart = False, isAccept = False\<rparr>,
         \<lparr>sid = ustr ''q2'', isStart = False, isAccept = False\<rparr>,
         \<lparr>sid = ustr ''q3'', isStart = False, isAccept = False\<rparr>,
         \<lparr>sid = ustr ''q5'', isStart = False, isAccept = False\<rparr>,
         \<lparr>sid = ustr ''q7'', isStart = False, isAccept = False\<rparr>,
         \<lparr>sid = ustr ''q8'', isStart = False, isAccept = False\<rparr>,
         \<lparr>sid = ustr ''q9'', isStart = False, isAccept = False\<rparr>,
         \<lparr>sid = ustr ''q10'', isStart = False, isAccept = False\<rparr>,
         \<lparr>sid = ustr ''q11'', isStart = False, isAccept = False\<rparr>,
         \<lparr>sid = ustr ''q12'', isStart = False, isAccept = False\<rparr>,
         \<lparr>sid = ustr ''q13'', isStart = False, isAccept = True\<rparr>],
     transitions =
        [\<lparr>tfrom = ustr ''q6'', tto = ustr ''q9'', symbol = ustr ''a''\<rparr>,
         \<lparr>tfrom = ustr ''q6'', tto = ustr ''q10'', symbol = ustr ''a''\<rparr>,
         \<lparr>tfrom = ustr ''q6'', tto = ustr ''q1'', symbol = ustr ''a''\<rparr>,
         \<lparr>tfrom = ustr ''q6'', tto = ustr ''q5'', symbol = ustr ''a''\<rparr>,
         \<lparr>tfrom = ustr ''q6'', tto = ustr ''q4'', symbol = ustr ''a''\<rparr>,
         \<lparr>tfrom = ustr ''q6'', tto = ustr ''q7'', symbol = ustr ''a''\<rparr>,
         \<lparr>tfrom = ustr ''q6'', tto = ustr ''q8'', symbol = ustr ''a''\<rparr>,
         \<lparr>tfrom = ustr ''q6'', tto = ustr ''q0'', symbol = ustr ''a''\<rparr>,
         \<lparr>tfrom = ustr ''q6'', tto = ustr ''q2'', symbol = ustr ''a''\<rparr>,
         \<lparr>tfrom = ustr ''q6'', tto = ustr ''q3'', symbol = ustr ''b''\<rparr>,
         \<lparr>tfrom = ustr ''q6'', tto = ustr ''q5'', symbol = ustr ''b''\<rparr>,
         \<lparr>tfrom = ustr ''q6'', tto = ustr ''q4'', symbol = ustr ''b''\<rparr>,
         \<lparr>tfrom = ustr ''q6'', tto = ustr ''q7'', symbol = ustr ''b''\<rparr>,
         \<lparr>tfrom = ustr ''q6'', tto = ustr ''q8'', symbol = ustr ''b''\<rparr>,
         \<lparr>tfrom = ustr ''q6'', tto = ustr ''q0'', symbol = ustr ''b''\<rparr>,
         \<lparr>tfrom = ustr ''q6'', tto = ustr ''q2'', symbol = ustr ''b''\<rparr>,
         \<lparr>tfrom = ustr ''q4'', tto = ustr ''q1'', symbol = ustr ''a''\<rparr>,
         \<lparr>tfrom = ustr ''q4'', tto = ustr ''q5'', symbol = ustr ''a''\<rparr>,
         \<lparr>tfrom = ustr ''q4'', tto = ustr ''q4'', symbol = ustr ''a''\<rparr>,
         \<lparr>tfrom = ustr ''q4'', tto = ustr ''q7'', symbol = ustr ''a''\<rparr>,
         \<lparr>tfrom = ustr ''q4'', tto = ustr ''q8'', symbol = ustr ''a''\<rparr>,
         \<lparr>tfrom = ustr ''q4'', tto = ustr ''q0'', symbol = ustr ''a''\<rparr>,
         \<lparr>tfrom = ustr ''q4'', tto = ustr ''q2'', symbol = ustr ''a''\<rparr>,
         \<lparr>tfrom = ustr ''q4'', tto = ustr ''q3'', symbol = ustr ''b''\<rparr>,
         \<lparr>tfrom = ustr ''q4'', tto = ustr ''q5'', symbol = ustr ''b''\<rparr>,
         \<lparr>tfrom = ustr ''q4'', tto = ustr ''q4'', symbol = ustr ''b''\<rparr>,
         \<lparr>tfrom = ustr ''q4'', tto = ustr ''q7'', symbol = ustr ''b''\<rparr>,
         \<lparr>tfrom = ustr ''q4'', tto = ustr ''q8'', symbol = ustr ''b''\<rparr>,
         \<lparr>tfrom = ustr ''q4'', tto = ustr ''q0'', symbol = ustr ''b''\<rparr>,
         \<lparr>tfrom = ustr ''q4'', tto = ustr ''q2'', symbol = ustr ''b''\<rparr>,
         \<lparr>tfrom = ustr ''q0'', tto = ustr ''q1'', symbol = ustr ''a''\<rparr>,
         \<lparr>tfrom = ustr ''q0'', tto = ustr ''q5'', symbol = ustr ''a''\<rparr>,
         \<lparr>tfrom = ustr ''q0'', tto = ustr ''q4'', symbol = ustr ''a''\<rparr>,
         \<lparr>tfrom = ustr ''q0'', tto = ustr ''q7'', symbol = ustr ''a''\<rparr>,
         \<lparr>tfrom = ustr ''q0'', tto = ustr ''q8'', symbol = ustr ''a''\<rparr>,
         \<lparr>tfrom = ustr ''q0'', tto = ustr ''q0'', symbol = ustr ''a''\<rparr>,
         \<lparr>tfrom = ustr ''q0'', tto = ustr ''q2'', symbol = ustr ''a''\<rparr>,
         \<lparr>tfrom = ustr ''q1'', tto = ustr ''q9'', symbol = ustr ''a''\<rparr>,
         \<lparr>tfrom = ustr ''q1'', tto = ustr ''q10'', symbol = ustr ''a''\<rparr>,
         \<lparr>tfrom = ustr ''q1'', tto = ustr ''q1'', symbol = ustr ''a''\<rparr>,
         \<lparr>tfrom = ustr ''q1'', tto = ustr ''q5'', symbol = ustr ''a''\<rparr>,
         \<lparr>tfrom = ustr ''q1'', tto = ustr ''q4'', symbol = ustr ''a''\<rparr>,
         \<lparr>tfrom = ustr ''q1'', tto = ustr ''q7'', symbol = ustr ''a''\<rparr>,
         \<lparr>tfrom = ustr ''q1'', tto = ustr ''q8'', symbol = ustr ''a''\<rparr>,
         \<lparr>tfrom = ustr ''q1'', tto = ustr ''q0'', symbol = ustr ''a''\<rparr>,
         \<lparr>tfrom = ustr ''q1'', tto = ustr ''q2'', symbol = ustr ''a''\<rparr>,
         \<lparr>tfrom = ustr ''q1'', tto = ustr ''q3'', symbol = ustr ''b''\<rparr>,
         \<lparr>tfrom = ustr ''q1'', tto = ustr ''q5'', symbol = ustr ''b''\<rparr>,
         \<lparr>tfrom = ustr ''q1'', tto = ustr ''q4'', symbol = ustr ''b''\<rparr>,
         \<lparr>tfrom = ustr ''q1'', tto = ustr ''q7'', symbol = ustr ''b''\<rparr>,
         \<lparr>tfrom = ustr ''q1'', tto = ustr ''q8'', symbol = ustr ''b''\<rparr>,
         \<lparr>tfrom = ustr ''q1'', tto = ustr ''q0'', symbol = ustr ''b''\<rparr>,
         \<lparr>tfrom = ustr ''q1'', tto = ustr ''q2'', symbol = ustr ''b''\<rparr>,
         \<lparr>tfrom = ustr ''q2'', tto = ustr ''q3'', symbol = ustr ''b''\<rparr>,
         \<lparr>tfrom = ustr ''q2'', tto = ustr ''q5'', symbol = ustr ''b''\<rparr>,
         \<lparr>tfrom = ustr ''q2'', tto = ustr ''q4'', symbol = ustr ''b''\<rparr>,
         \<lparr>tfrom = ustr ''q2'', tto = ustr ''q7'', symbol = ustr ''b''\<rparr>,
         \<lparr>tfrom = ustr ''q2'', tto = ustr ''q8'', symbol = ustr ''b''\<rparr>,
         \<lparr>tfrom = ustr ''q2'', tto = ustr ''q0'', symbol = ustr ''b''\<rparr>,
         \<lparr>tfrom = ustr ''q2'', tto = ustr ''q2'', symbol = ustr ''b''\<rparr>,
         \<lparr>tfrom = ustr ''q3'', tto = ustr ''q9'', symbol = ustr ''a''\<rparr>,
         \<lparr>tfrom = ustr ''q3'', tto = ustr ''q10'', symbol = ustr ''a''\<rparr>,
         \<lparr>tfrom = ustr ''q3'', tto = ustr ''q1'', symbol = ustr ''a''\<rparr>,
         \<lparr>tfrom = ustr ''q3'', tto = ustr ''q5'', symbol = ustr ''a''\<rparr>,
         \<lparr>tfrom = ustr ''q3'', tto = ustr ''q4'', symbol = ustr ''a''\<rparr>,
         \<lparr>tfrom = ustr ''q3'', tto = ustr ''q7'', symbol = ustr ''a''\<rparr>,
         \<lparr>tfrom = ustr ''q3'', tto = ustr ''q8'', symbol = ustr ''a''\<rparr>,
         \<lparr>tfrom = ustr ''q3'', tto = ustr ''q0'', symbol = ustr ''a''\<rparr>,
         \<lparr>tfrom = ustr ''q3'', tto = ustr ''q2'', symbol = ustr ''a''\<rparr>,
         \<lparr>tfrom = ustr ''q3'', tto = ustr ''q3'', symbol = ustr ''b''\<rparr>,
         \<lparr>tfrom = ustr ''q3'', tto = ustr ''q5'', symbol = ustr ''b''\<rparr>,
         \<lparr>tfrom = ustr ''q3'', tto = ustr ''q4'', symbol = ustr ''b''\<rparr>,
         \<lparr>tfrom = ustr ''q3'', tto = ustr ''q7'', symbol = ustr ''b''\<rparr>,
         \<lparr>tfrom = ustr ''q3'', tto = ustr ''q8'', symbol = ustr ''b''\<rparr>,
         \<lparr>tfrom = ustr ''q3'', tto = ustr ''q0'', symbol = ustr ''b''\<rparr>,
         \<lparr>tfrom = ustr ''q3'', tto = ustr ''q2'', symbol = ustr ''b''\<rparr>,
         \<lparr>tfrom = ustr ''q5'', tto = ustr ''q9'', symbol = ustr ''a''\<rparr>,
         \<lparr>tfrom = ustr ''q5'', tto = ustr ''q10'', symbol = ustr ''a''\<rparr>,
         \<lparr>tfrom = ustr ''q5'', tto = ustr ''q1'', symbol = ustr ''a''\<rparr>,
         \<lparr>tfrom = ustr ''q5'', tto = ustr ''q5'', symbol = ustr ''a''\<rparr>,
         \<lparr>tfrom = ustr ''q5'', tto = ustr ''q4'', symbol = ustr ''a''\<rparr>,
         \<lparr>tfrom = ustr ''q5'', tto = ustr ''q7'', symbol = ustr ''a''\<rparr>,
         \<lparr>tfrom = ustr ''q5'', tto = ustr ''q8'', symbol = ustr ''a''\<rparr>,
         \<lparr>tfrom = ustr ''q5'', tto = ustr ''q0'', symbol = ustr ''a''\<rparr>,
         \<lparr>tfrom = ustr ''q5'', tto = ustr ''q2'', symbol = ustr ''a''\<rparr>,
         \<lparr>tfrom = ustr ''q5'', tto = ustr ''q3'', symbol = ustr ''b''\<rparr>,
         \<lparr>tfrom = ustr ''q5'', tto = ustr ''q5'', symbol = ustr ''b''\<rparr>,
         \<lparr>tfrom = ustr ''q5'', tto = ustr ''q4'', symbol = ustr ''b''\<rparr>,
         \<lparr>tfrom = ustr ''q5'', tto = ustr ''q7'', symbol = ustr ''b''\<rparr>,
         \<lparr>tfrom = ustr ''q5'', tto = ustr ''q8'', symbol = ustr ''b''\<rparr>,
         \<lparr>tfrom = ustr ''q5'', tto = ustr ''q0'', symbol = ustr ''b''\<rparr>,
         \<lparr>tfrom = ustr ''q5'', tto = ustr ''q2'', symbol = ustr ''b''\<rparr>,
         \<lparr>tfrom = ustr ''q7'', tto = ustr ''q9'', symbol = ustr ''a''\<rparr>,
         \<lparr>tfrom = ustr ''q7'', tto = ustr ''q10'', symbol = ustr ''a''\<rparr>,
         \<lparr>tfrom = ustr ''q8'', tto = ustr ''q9'', symbol = ustr ''a''\<rparr>,
         \<lparr>tfrom = ustr ''q8'', tto = ustr ''q10'', symbol = ustr ''a''\<rparr>,
         \<lparr>tfrom = ustr ''q9'', tto = ustr ''q11'', symbol = ustr ''b''\<rparr>,
         \<lparr>tfrom = ustr ''q9'', tto = ustr ''q12'', symbol = ustr ''b''\<rparr>,
         \<lparr>tfrom = ustr ''q10'', tto = ustr ''q11'', symbol = ustr ''b''\<rparr>,
         \<lparr>tfrom = ustr ''q10'', tto = ustr ''q12'', symbol = ustr ''b''\<rparr>,
         \<lparr>tfrom = ustr ''q11'', tto = ustr ''q13'', symbol = ustr ''b''\<rparr>,
         \<lparr>tfrom = ustr ''q12'', tto = ustr ''q13'', symbol = ustr ''b''\<rparr>],
     alphabet = [ustr ''a'', ustr ''b'']\<rparr>"

definition abb_dfa :: automaton where
  "abb_dfa =
     \<lparr>states =
        [\<lparr>sid = ustr ''q0'', isStart = True, isAccept = False\<rparr>,
         \<lparr>sid = ustr ''q1'', isStart = False, isAccept = False\<rparr>,
         \<lparr>sid = ustr ''q2'', isStart = False, isAccept = False\<rparr>,
         \<lparr>sid = ustr ''q3'', isStart = False, isAccept = False\<rparr>,
         \<lparr>sid = ustr ''q4'', isStart = False, isAccept = True\<rparr>],
     transitions =
        [\<lparr>tfrom = ustr ''q0'', tto = ustr ''q1'', symbol = ustr ''a''\<rparr>,
         \<lparr>tfrom = ustr ''q0'', tto = ustr ''q2'', symbol = ustr ''b''\<rparr>,
         \<lparr>tfrom = ustr ''q1'', tto = ustr ''q1'', symbol = ustr ''a''\<rparr>,
         \<lparr>tfrom = ustr ''q1'', tto = ustr ''q3'', symbol = ustr ''b''\<rparr>,
         \<lparr>tfrom = ustr ''q2'', tto = ustr ''q1'', symbol = ustr ''a''\<rparr>,
         \<lparr>tfrom = ustr ''q2'', tto = ustr ''q2'', symbol = ustr ''b''\<rparr>,
         \<lparr>tfrom = ustr ''q3'', tto = ustr ''q1'', symbol = ustr ''a''\<rparr>,
         \<lparr>tfrom = ustr ''q3'', tto = ustr ''q4'', symbol = ustr ''b''\<rparr>,
         \<lparr>tfrom = ustr ''q4'', tto = ustr ''q1'', symbol = ustr ''a''\<rparr>,
         \<lparr>tfrom = ustr ''q4'', tto = ustr ''q2'', symbol = ustr ''b''\<rparr>],
     alphabet = [ustr ''a'', ustr ''b'']\<rparr>"

section \<open>Auxiliary notions for the proofs\<close>

text \<open>The symbols a token stands for: the literal itself, or the labels of a fragment.\<close>

fun tokenSymbols :: "token \<Rightarrow> ustring set" where
  "tokenSymbols (Lit s) = {s}"
| "tokenSymbols (Frag f) = symbol ` set (ftransitions f)"

text \<open>The labels of the accumulator of \<open>tokens.reduce\<close>.\<close>

definition accSymbols :: "fragment option \<Rightarrow> ustring set" where
  "accSymbols acc = (case acc of None \<Rightarrow> {} | Some f \<Rightarrow> symbol ` set (ftransitions f))"

text \<open>
  The invariant of the worklist loop of \<open>nfaToDFA\<close>: the keys of the map are distinct,
  the subsets in the queue have distinct keys, all of them in the map, no two transitions
  leave the same key on the same symbol, and every transition leaves a key whose subset is
  no longer in the queue.
\<close>

definition dfaInv :: "dfaWork \<Rightarrow> bool" where
  "dfaInv w =
     (case w of (ds, dt, q) \<Rightarrow>
        distinct (map fst ds) \<and>
        distinct (map setKey q) \<and>
        setKey ` set q \<subseteq> fst ` set ds \<and>
        distinct (map (\<lambda>t. (tfrom t, symbol t)) dt) \<and>
        tfrom ` set dt \<subseteq> fst ` set ds - setKey ` set q)"

text \<open>
  The invariant while the subset with key \<open>k\<close> is being processed, after the symbols
  in \<open>seen\<close>.
\<close>

definition dfaStepInv :: "ustring \<Rightarrow> ustring set \<Rightarrow> dfaWork \<Rightarrow> bool" where
  "dfaStepInv k seen w =
     (case w of (ds, dt, q) \<Rightarrow>
        dfaInv (ds, dt, q) \<and> k \<in> fst ` set ds \<and> k \<notin> setKey ` set q \<and>
        (\<forall>t\<in>set dt. tfrom t = k \<longrightarrow> symbol t \<in> seen))"

text \<open>
  The arrays of the store whose references are references of objects of the store.
\<close>

definition wfTransitions :: "store \<Rightarrow> addr \<Rightarrow> bool" where
  "wfTransitions s a \<longleftrightarrow>
     a < length (refArrays s) \<and> list_all (\<lambda>r. r < length (transitionObjs s)) (refArrays s ! a)"

definition wfStates :: "store \<Rightarrow> addr \<Rightarrow> bool" where
  "wfStates s a \<longleftrightarrow>
     a < length (refArrays s) \<and> list_all (\<lambda>r. r < length (stateObjs s)) (refArrays s ! a)"

text \<open>
  How the store changes while \<open>nfaLambdaToNFA\<close> runs. A loop that fills the set at
  \<open>a\<close> changes that set and creates collections of strings; a step of the loop that
  fills the array \<open>newTransitions\<close> at \<open>a\<close> changes that array and creates collections
  of strings and transitions.
\<close>

definition fills :: "store \<Rightarrow> addr \<Rightarrow> store \<Rightarrow> bool" where
  "fills s a s' \<longleftrightarrow> (\<exists>v ext. s' = s\<lparr>strLists := (strLists s)[a := v] @ ext\<rparr>)"

definition appends :: "store \<Rightarrow> addr \<Rightarrow> store \<Rightarrow> bool" where
  "appends s a s' \<longleftrightarrow>
     (\<exists>ext ts rs. s' = s\<lparr>strLists := strLists s @ ext,
                           transitionObjs := transitionObjs s @ ts,
                           refArrays := (refArrays s)[a := rs]\<rparr>)"

text \<open>The new \<open>State\<close> object that \<open>states.map\<close> makes of a state.\<close>

definition acceptUpdate :: "state list \<Rightarrow> transition list \<Rightarrow> state \<Rightarrow> state" where
  "acceptUpdate sts trs st = st\<lparr>isAccept := isAccept st \<or> hasAcceptInClosure sts trs st\<rparr>"

text \<open>
  The worklist loop of \<open>nfaToDFA\<close> on the store holds the map \<open>dfaStates\<close> at
  \<open>ds\<close>, the array \<open>dfaTransitions\<close> at \<open>dt\<close> and the queue at \<open>q\<close>. Reading the
  three of them gives the state of the loop of \<open>nfaToDFALoop\<close>.
\<close>

definition absMap :: "store \<Rightarrow> addr \<Rightarrow> state jsmap" where
  "absMap s ds = map (\<lambda>e. (fst e, stateObjs s ! snd e)) (stateMaps s ! ds)"

definition readQueue :: "store \<Rightarrow> addr \<Rightarrow> ustring list list" where
  "readQueue s q = map (\<lambda>r. strLists s ! r) (refArrays s ! q)"

definition readWork :: "store \<Rightarrow> addr \<Rightarrow> addr \<Rightarrow> addr \<Rightarrow> dfaWork" where
  "readWork s ds dt q = (absMap s ds, readTransitions s dt, readQueue s q)"

definition wfWork :: "store \<Rightarrow> addr \<Rightarrow> addr \<Rightarrow> addr \<Rightarrow> bool" where
  "wfWork s ds dt q \<longleftrightarrow>
     ds < length (stateMaps s) \<and> dt < length (refArrays s) \<and> q < length (refArrays s) \<and>
     dt \<noteq> q \<and>
     list_all (\<lambda>e. snd e < length (stateObjs s)) (stateMaps s ! ds) \<and>
     list_all (\<lambda>r. r < length (transitionObjs s)) (refArrays s ! dt) \<and>
     list_all (\<lambda>r. r < length (strLists s)) (refArrays s ! q)"

text \<open>
  A step of the worklist loop changes the three of them and creates collections of
  strings, states and transitions.
\<close>

definition grows :: "store \<Rightarrow> addr \<Rightarrow> addr \<Rightarrow> addr \<Rightarrow> store \<Rightarrow> bool" where
  "grows s ds dt q s' \<longleftrightarrow>
     (\<exists>ext sts ts m rt rq.
        s' = s\<lparr>strLists := strLists s @ ext, stateObjs := stateObjs s @ sts,
               transitionObjs := transitionObjs s @ ts,
               stateMaps := (stateMaps s)[ds := m],
               refArrays := (refArrays s)[dt := rt, q := rq]\<rparr>)"

text \<open>The renaming pass on values.\<close>

definition renameState :: "ustring jsmap \<Rightarrow> state \<Rightarrow> state" where
  "renameState mp st = st\<lparr>sid := getOrElse (Map_get mp (sid st)) (sid st)\<rparr>"

definition renameTransition :: "ustring jsmap \<Rightarrow> transition \<Rightarrow> transition" where
  "renameTransition mp t =
     t\<lparr>tfrom := getOrElse (Map_get mp (tfrom t)) (tfrom t),
       tto := getOrElse (Map_get mp (tto t)) (tto t)\<rparr>"

definition numberKey :: "ustring \<Rightarrow> ustring jsmap \<times> nat \<Rightarrow> ustring jsmap \<times> nat" where
  "numberKey k mc = (case mc of (m, counter) \<Rightarrow>
                       (Map_set k (ustr ''q'' @ digits counter) m, counter + 1))"

section \<open>Properties of the epsilon closure\<close>

lemma closureStep_fold_sets:
  assumes "foldl closureStep (c, s) ts = (c', s')"
  shows "set c' = set c \<union> tto ` set ts \<and> set s' = set s \<union> (tto ` set ts - set c)"
  using assms
proof (induction ts arbitrary: c s)
  case Nil
  then show ?case by simp
next
  case (Cons t ts)
  show ?case
  proof (cases "tto t \<in> set c")
    case True
    with Cons.prems have "foldl closureStep (c, s) ts = (c', s')"
      by (simp add: closureStep_pair)
    from Cons.IH [OF this] True show ?thesis by auto
  next
    case False
    with Cons.prems have "foldl closureStep (c @ [tto t], s @ [tto t]) ts = (c', s')"
      by (simp add: closureStep_pair)
    from Cons.IH [OF this] False show ?thesis by auto
  qed
qed

lemma closureStep_fold_idle:
  "\<forall>t\<in>set ts. tto t \<in> set c \<Longrightarrow> foldl closureStep (c, s) ts = (c, s)"
  by (induction ts) (simp_all add: closureStep_pair)

lemma epsilonClosureLoop_closed:
  assumes "set stack \<subseteq> set closure"
    and "\<forall>x\<in>set closure - set stack. \<forall>t\<in>set trs.
           tfrom t = x \<and> symbol t = LAMBDA \<longrightarrow> tto t \<in> set closure"
  shows "\<forall>x\<in>set (epsilonClosureLoop trs closure stack). \<forall>t\<in>set trs.
           tfrom t = x \<and> symbol t = LAMBDA \<longrightarrow>
           tto t \<in> set (epsilonClosureLoop trs closure stack)"
  using assms
proof (induction trs closure stack rule: epsilonClosureLoop.induct)
  case (1 trs closure stack)
  show ?case
  proof (cases "length stack > 0")
    case False
    then have "epsilonClosureLoop trs closure stack = closure"
      by (subst epsilonClosureLoop.simps) simp
    with False "1.prems" show ?thesis by simp
  next
    case True
    obtain c1 s1 where run:
      "foldl closureStep (closure, butlast stack) (lambdaEdgesFrom trs (last stack)) = (c1, s1)"
      by (cases "foldl closureStep (closure, butlast stack) (lambdaEdgesFrom trs (last stack))")
    have unfold: "epsilonClosureLoop trs closure stack = epsilonClosureLoop trs c1 s1"
      using True run by (subst epsilonClosureLoop.simps) simp
    from closureStep_fold_sets [OF run]
    have c1: "set c1 = set closure \<union> tto ` set (lambdaEdgesFrom trs (last stack))"
      and s1: "set s1 = set (butlast stack) \<union>
                 (tto ` set (lambdaEdgesFrom trs (last stack)) - set closure)"
      by simp_all
    have stack: "set stack = insert (last stack) (set (butlast stack))"
      using True by (cases stack rule: rev_cases) auto
    have sub: "set s1 \<subseteq> set c1"
      using c1 s1 "1.prems"(1) stack by auto
    have inv: "\<forall>x\<in>set c1 - set s1. \<forall>t\<in>set trs.
                 tfrom t = x \<and> symbol t = LAMBDA \<longrightarrow> tto t \<in> set c1"
    proof (intro ballI impI)
      fix x t
      assume x: "x \<in> set c1 - set s1" and t: "t \<in> set trs"
        and e: "tfrom t = x \<and> symbol t = LAMBDA"
      from x c1 s1 have xc: "x \<in> set closure" and xb: "x \<notin> set (butlast stack)"
        by auto
      show "tto t \<in> set c1"
      proof (cases "x = last stack")
        case True
        with t e have "t \<in> set (lambdaEdgesFrom trs (last stack))"
          by (simp add: lambdaEdgesFrom_def)
        with c1 show ?thesis by auto
      next
        case False
        with xb stack have "x \<notin> set stack" by auto
        with xc "1.prems"(2) t e have "tto t \<in> set closure" by auto
        with c1 show ?thesis by auto
      qed
    qed
    from "1.IH" [OF True run [symmetric] sub inv] unfold show ?thesis by simp
  qed
qed

lemma epsilonClosureLoop_fixed:
  assumes "set stack \<subseteq> set closure"
    and "\<forall>x\<in>set closure. \<forall>t\<in>set trs.
           tfrom t = x \<and> symbol t = LAMBDA \<longrightarrow> tto t \<in> set closure"
  shows "epsilonClosureLoop trs closure stack = closure"
  using assms
proof (induction stack rule: rev_induct)
  case Nil
  then show ?case by (subst epsilonClosureLoop.simps) simp
next
  case (snoc x xs)
  have "\<forall>t\<in>set (lambdaEdgesFrom trs x). tto t \<in> set closure"
    using snoc.prems by (auto simp: lambdaEdgesFrom_def)
  then have "foldl closureStep (closure, xs) (lambdaEdgesFrom trs x) = (closure, xs)"
    by (rule closureStep_fold_idle)
  then have "epsilonClosureLoop trs closure (xs @ [x]) = epsilonClosureLoop trs closure xs"
    by (subst epsilonClosureLoop.simps) simp
  with snoc show ?case by simp
qed

text \<open>
  Claim C8. The epsilon closure is idempotent: for every set of state ids \<open>S\<close> and every
  transition list \<open>T\<close>, closing \<open>epsilonClosure S T\<close> again under \<open>T\<close> gives
  \<open>epsilonClosure S T\<close> back, with the members in the same insertion order.
\<close>

theorem epsilonClosure_idempotent:
  "epsilonClosure (epsilonClosure S T) T = epsilonClosure S T"
proof -
  have "\<forall>x\<in>set (epsilonClosure S T). \<forall>t\<in>set T.
          tfrom t = x \<and> symbol t = LAMBDA \<longrightarrow> tto t \<in> set (epsilonClosure S T)"
    unfolding epsilonClosure_def by (rule epsilonClosureLoop_closed) simp_all
  then have "epsilonClosureLoop T (epsilonClosure S T) (epsilonClosure S T) = epsilonClosure S T"
    by (intro epsilonClosureLoop_fixed) simp_all
  then show ?thesis by (simp add: epsilonClosure_def [of "epsilonClosure S T"])
qed

theorem epsilonClosure_idempotent_witness:
  "epsilonClosure
     (epsilonClosure [ustr ''q0'']
        [\<lparr>tfrom = ustr ''q0'', tto = ustr ''q1'', symbol = LAMBDA\<rparr>,
         \<lparr>tfrom = ustr ''q1'', tto = ustr ''q2'', symbol = LAMBDA\<rparr>,
         \<lparr>tfrom = ustr ''q2'', tto = ustr ''q3'', symbol = ustr ''a''\<rparr>])
     [\<lparr>tfrom = ustr ''q0'', tto = ustr ''q1'', symbol = LAMBDA\<rparr>,
      \<lparr>tfrom = ustr ''q1'', tto = ustr ''q2'', symbol = LAMBDA\<rparr>,
      \<lparr>tfrom = ustr ''q2'', tto = ustr ''q3'', symbol = ustr ''a''\<rparr>]
   = [ustr ''q0'', ustr ''q1'', ustr ''q2'']"
proof -
  have "epsilonClosure [ustr ''q0'']
        [\<lparr>tfrom = ustr ''q0'', tto = ustr ''q1'', symbol = LAMBDA\<rparr>,
         \<lparr>tfrom = ustr ''q1'', tto = ustr ''q2'', symbol = LAMBDA\<rparr>,
         \<lparr>tfrom = ustr ''q2'', tto = ustr ''q3'', symbol = ustr ''a''\<rparr>]
     = [ustr ''q0'', ustr ''q1'', ustr ''q2'']"
    by code_simp
  then show ?thesis
    using epsilonClosure_idempotent
      [of "[ustr ''q0'']"
          "[\<lparr>tfrom = ustr ''q0'', tto = ustr ''q1'', symbol = LAMBDA\<rparr>,
            \<lparr>tfrom = ustr ''q1'', tto = ustr ''q2'', symbol = LAMBDA\<rparr>,
            \<lparr>tfrom = ustr ''q2'', tto = ustr ''q3'', symbol = ustr ''a''\<rparr>]"]
    by simp
qed

section \<open>The worked example\<close>

lemma abb_stage1: "regexToNFALambda (ustr ''(a|b)*abb'') = abb_nfaLambda"
  unfolding abb_nfaLambda_def by code_simp

lemma abb_stage2: "nfaLambdaToNFA abb_nfaLambda = abb_nfa"
  unfolding abb_nfaLambda_def abb_nfa_def by code_simp

lemma abb_stage3: "nfaToDFA abb_nfa = abb_dfa"
  unfolding abb_nfa_def abb_dfa_def by code_simp

lemma abb_accepts:
  "validateString abb_dfa (ustr ''abb'')"
  "validateString abb_dfa (ustr ''aabb'')"
  "validateString abb_dfa (ustr ''babb'')"
  unfolding abb_dfa_def by code_simp+

lemma abb_rejects:
  "\<not> validateString abb_dfa (ustr ''ab'')"
  "\<not> validateString abb_dfa (ustr ''abba'')"
  "\<not> validateString abb_dfa (ustr '''')"
  unfolding abb_dfa_def by code_simp+

text \<open>
  Claim C2. For the regex \<open>(a|b)*abb\<close>, on the DFA that \<open>regexToNFALambda\<close>,
  \<open>nfaLambdaToNFA\<close> and \<open>nfaToDFA\<close> build in turn, \<open>validateString\<close> returns true
  for \<open>abb\<close>, \<open>aabb\<close> and \<open>babb\<close> and false for \<open>ab\<close>, \<open>abba\<close> and the
  empty string.
\<close>

theorem pipeline_abb:
  "validateString (nfaToDFA (nfaLambdaToNFA (regexToNFALambda (ustr ''(a|b)*abb'')))) (ustr ''abb'') \<and>
   validateString (nfaToDFA (nfaLambdaToNFA (regexToNFALambda (ustr ''(a|b)*abb'')))) (ustr ''aabb'') \<and>
   validateString (nfaToDFA (nfaLambdaToNFA (regexToNFALambda (ustr ''(a|b)*abb'')))) (ustr ''babb'') \<and>
   \<not> validateString (nfaToDFA (nfaLambdaToNFA (regexToNFALambda (ustr ''(a|b)*abb'')))) (ustr ''ab'') \<and>
   \<not> validateString (nfaToDFA (nfaLambdaToNFA (regexToNFALambda (ustr ''(a|b)*abb'')))) (ustr ''abba'') \<and>
   \<not> validateString (nfaToDFA (nfaLambdaToNFA (regexToNFALambda (ustr ''(a|b)*abb'')))) (ustr '''')"
  unfolding abb_stage1 abb_stage2 abb_stage3
  using abb_accepts abb_rejects by simp

theorem pipeline_abb_witness:
  "validateString (nfaToDFA (nfaLambdaToNFA (regexToNFALambda (ustr ''(a|b)*abb'')))) (ustr ''babb'') \<and>
   \<not> validateString abb_dfa (ustr ''abba'')"
  using pipeline_abb by (simp add: abb_stage1 abb_stage2 abb_stage3)

section \<open>Degenerate automata\<close>

lemma find_isStart_None: "\<forall>s\<in>set sts. \<not> isStart s \<Longrightarrow> find isStart sts = None"
  by (simp add: find_None_iff)

text \<open>
  Claim C6. For every automaton with no state whose \<open>isStart\<close> is true, \<open>nfaToDFA\<close>
  returns the empty automaton: no states, no transitions, and the alphabet of the input.
\<close>

theorem nfaToDFA_no_start:
  assumes "\<forall>s\<in>set (states nfa). \<not> isStart s"
  shows "nfaToDFA nfa = \<lparr>states = [], transitions = [], alphabet = alphabet nfa\<rparr>"
  using find_isStart_None [OF assms] by (simp add: nfaToDFA_def)

theorem nfaToDFA_no_start_witness:
  "\<not> isStart \<lparr>sid = ustr ''q0'', isStart = False, isAccept = True\<rparr> \<and>
   nfaToDFA \<lparr>states = [\<lparr>sid = ustr ''q0'', isStart = False, isAccept = True\<rparr>],
             transitions = [\<lparr>tfrom = ustr ''q0'', tto = ustr ''q0'', symbol = ustr ''a''\<rparr>],
             alphabet = [ustr ''a'']\<rparr>
     = \<lparr>states = [], transitions = [], alphabet = [ustr ''a'']\<rparr>"
  using nfaToDFA_no_start
    [of "\<lparr>states = [\<lparr>sid = ustr ''q0'', isStart = False, isAccept = True\<rparr>],
          transitions = [\<lparr>tfrom = ustr ''q0'', tto = ustr ''q0'', symbol = ustr ''a''\<rparr>],
          alphabet = [ustr ''a'']\<rparr>"]
  by simp

text \<open>
  Claim C10. For every automaton with no state whose \<open>isStart\<close> is true and for every
  input string, the empty one included, \<open>validateString\<close> returns false.
\<close>

theorem validateString_no_start:
  assumes "\<forall>s\<in>set (states dfa). \<not> isStart s"
  shows "validateString dfa input = False"
  using find_isStart_None [OF assms] by (simp add: validateString_def)

theorem validateString_no_start_witness:
  "\<not> isStart \<lparr>sid = ustr ''q0'', isStart = False, isAccept = True\<rparr> \<and>
   validateString \<lparr>states = [\<lparr>sid = ustr ''q0'', isStart = False, isAccept = True\<rparr>],
                   transitions = [], alphabet = []\<rparr> [] = False"
  using validateString_no_start
    [of "\<lparr>states = [\<lparr>sid = ustr ''q0'', isStart = False, isAccept = True\<rparr>],
          transitions = [], alphabet = []\<rparr>" "[]"]
  by simp

section \<open>The empty regex\<close>

lemma empty_stage1:
  "regexToNFALambda [] =
     \<lparr>states = [\<lparr>sid = ustr ''q0'', isStart = True, isAccept = False\<rparr>,
                \<lparr>sid = ustr ''q1'', isStart = False, isAccept = True\<rparr>],
      transitions = [\<lparr>tfrom = ustr ''q0'', tto = ustr ''q1'', symbol = LAMBDA\<rparr>],
      alphabet = []\<rparr>"
  by code_simp

lemma empty_stage2:
  "nfaLambdaToNFA
     \<lparr>states = [\<lparr>sid = ustr ''q0'', isStart = True, isAccept = False\<rparr>,
                \<lparr>sid = ustr ''q1'', isStart = False, isAccept = True\<rparr>],
      transitions = [\<lparr>tfrom = ustr ''q0'', tto = ustr ''q1'', symbol = LAMBDA\<rparr>],
      alphabet = []\<rparr> =
     \<lparr>states = [\<lparr>sid = ustr ''q0'', isStart = True, isAccept = True\<rparr>,
                \<lparr>sid = ustr ''q1'', isStart = False, isAccept = True\<rparr>],
      transitions = [], alphabet = []\<rparr>"
  by code_simp

lemma empty_stage3:
  "nfaToDFA
     \<lparr>states = [\<lparr>sid = ustr ''q0'', isStart = True, isAccept = True\<rparr>,
                \<lparr>sid = ustr ''q1'', isStart = False, isAccept = True\<rparr>],
      transitions = [], alphabet = []\<rparr> =
     \<lparr>states = [\<lparr>sid = ustr ''q0'', isStart = True, isAccept = True\<rparr>],
      transitions = [], alphabet = []\<rparr>"
  by code_simp

lemma codePoints_Nil_iff: "codePoints w = [] \<longleftrightarrow> w = []"
  by (induction w rule: codePoints.induct) simp_all

lemma validateString_lone_accept:
  "validateString \<lparr>states = [\<lparr>sid = i, isStart = True, isAccept = True\<rparr>],
                   transitions = [], alphabet = al\<rparr> w \<longleftrightarrow> w = []"
proof (cases "codePoints w")
  case Nil
  then show ?thesis using codePoints_Nil_iff [of w] by (simp add: validateString_def)
next
  case (Cons c cs)
  then show ?thesis using codePoints_Nil_iff [of w] by (auto simp: validateString_def)
qed

text \<open>
  Claim C4, as stated, fails: the automaton that \<open>regexToNFALambda\<close> builds for the empty
  regex is not a single state that is both start and accept.
\<close>

theorem empty_regex_not_single_state:
  "\<not> (\<exists>s. states (regexToNFALambda []) = [s] \<and> isStart s \<and> isAccept s)"
  by (simp add: empty_stage1)

text \<open>
  Claim C4, amended. For the empty regex, \<open>regexToNFALambda\<close> builds the epsilon
  fragment: a start state \<open>q0\<close> and an accept state \<open>q1\<close> joined by one \<open>\<lambda>\<close> edge,
  with an empty alphabet. The DFA derived from it by \<open>nfaLambdaToNFA\<close> and \<open>nfaToDFA\<close>
  has a single state, both start and accept, and \<open>validateString\<close> accepts the empty
  string on it and no other string.
\<close>

theorem empty_regex_pipeline:
  "regexToNFALambda [] =
     \<lparr>states = [\<lparr>sid = ustr ''q0'', isStart = True, isAccept = False\<rparr>,
                \<lparr>sid = ustr ''q1'', isStart = False, isAccept = True\<rparr>],
      transitions = [\<lparr>tfrom = ustr ''q0'', tto = ustr ''q1'', symbol = LAMBDA\<rparr>],
      alphabet = []\<rparr> \<and>
   nfaToDFA (nfaLambdaToNFA (regexToNFALambda [])) =
     \<lparr>states = [\<lparr>sid = ustr ''q0'', isStart = True, isAccept = True\<rparr>],
      transitions = [], alphabet = []\<rparr> \<and>
   (validateString (nfaToDFA (nfaLambdaToNFA (regexToNFALambda []))) w \<longleftrightarrow> w = [])"
  by (simp add: empty_stage1 empty_stage2 empty_stage3 validateString_lone_accept)

theorem empty_regex_pipeline_witness:
  "validateString (nfaToDFA (nfaLambdaToNFA (regexToNFALambda []))) [] \<and>
   \<not> validateString (nfaToDFA (nfaLambdaToNFA (regexToNFALambda []))) (ustr ''a'')"
proof -
  note iff = empty_regex_pipeline [THEN conjunct2, THEN conjunct2]
  have "ustr ''a'' \<noteq> []" by (simp add: ustr_def)
  with iff [of "[]"] iff [of "ustr ''a''"] show ?thesis by blast
qed

section \<open>Properties of the NFA-\<lambda> to NFA reduction\<close>

lemma pushNew_fold_symbols:
  "symbol ` set (fold (pushNew i c) rs nt) \<subseteq> insert c (symbol ` set nt)"
proof (induction rs arbitrary: nt)
  case Nil
  then show ?case by auto
next
  case (Cons r rs)
  have "symbol ` set (pushNew i c r nt) \<subseteq> insert c (symbol ` set nt)"
    by (auto simp: pushNew_def)
  with Cons.IH [of "pushNew i c r nt"] show ?case by auto
qed

lemma symbolStep_fold_symbols:
  "symbol ` set (fold (symbolStep trs st closure) alph nt) \<subseteq> set alph \<union> symbol ` set nt"
proof (induction alph arbitrary: nt)
  case Nil
  then show ?case by simp
next
  case (Cons c alph)
  have "symbol ` set (symbolStep trs st closure c nt) \<subseteq> insert c (symbol ` set nt)"
    unfolding symbolStep_def by (rule pushNew_fold_symbols)
  with Cons.IH [of "symbolStep trs st closure c nt"] show ?case by auto
qed

lemma stateStep_fold_symbols:
  "symbol ` set (fold (stateStep trs alph) sts nt) \<subseteq> set alph \<union> symbol ` set nt"
proof (induction sts arbitrary: nt)
  case Nil
  then show ?case by simp
next
  case (Cons st sts)
  have "symbol ` set (stateStep trs alph st nt) \<subseteq> set alph \<union> symbol ` set nt"
    unfolding stateStep_def Let_def by (rule symbolStep_fold_symbols)
  with Cons.IH [of "stateStep trs alph st nt"] show ?case by auto
qed

lemma nfaLambdaToNFA_symbols:
  "symbol ` set (transitions (nfaLambdaToNFA a)) \<subseteq> set (alphabet a)"
  using stateStep_fold_symbols [of "transitions a" "alphabet a" "states a" "[]"]
  by (simp add: nfaLambdaToNFA_def Let_def)

lemma hasAcceptInClosure_iff:
  "hasAcceptInClosure sts trs s \<longleftrightarrow>
     (\<exists>i\<in>set (epsilonClosure [sid s] trs).
        \<exists>st. find (\<lambda>st. sid st = i) sts = Some st \<and> isAccept st)"
  by (auto simp: hasAcceptInClosure_def list_ex_iff split: option.splits)

text \<open>
  Claim C5. For every automaton whose alphabet does not contain the epsilon marker,
  \<open>nfaLambdaToNFA\<close> returns an automaton with no transition labeled \<open>\<lambda>\<close>, with the
  alphabet of the input, and with a state list that has the ids and the \<open>isStart\<close> flags
  of the input, in the same order. Only \<open>isAccept\<close> changes: a state is accepting in the
  result when it was accepting or when its epsilon closure holds the id of an accepting
  state (the state that \<open>find\<close> gives for that id).
\<close>

theorem nfaLambdaToNFA_frame:
  assumes "LAMBDA \<notin> set (alphabet a)"
  shows "(\<forall>t\<in>set (transitions (nfaLambdaToNFA a)). symbol t \<noteq> LAMBDA) \<and>
         alphabet (nfaLambdaToNFA a) = alphabet a \<and>
         map sid (states (nfaLambdaToNFA a)) = map sid (states a) \<and>
         map isStart (states (nfaLambdaToNFA a)) = map isStart (states a) \<and>
         map isAccept (states (nfaLambdaToNFA a)) =
           map (\<lambda>s. isAccept s \<or>
                  (\<exists>i\<in>set (epsilonClosure [sid s] (transitions a)).
                     \<exists>st. find (\<lambda>st. sid st = i) (states a) = Some st \<and> isAccept st))
             (states a)"
proof (intro conjI ballI)
  fix t
  assume "t \<in> set (transitions (nfaLambdaToNFA a))"
  then have "symbol t \<in> set (alphabet a)"
    using nfaLambdaToNFA_symbols [of a] by auto
  with assms show "symbol t \<noteq> LAMBDA" by auto
next
  show "alphabet (nfaLambdaToNFA a) = alphabet a"
    by (simp add: nfaLambdaToNFA_def Let_def)
next
  show "map sid (states (nfaLambdaToNFA a)) = map sid (states a)"
    by (simp add: nfaLambdaToNFA_def Let_def)
next
  show "map isStart (states (nfaLambdaToNFA a)) = map isStart (states a)"
    by (simp add: nfaLambdaToNFA_def Let_def)
next
  show "map isAccept (states (nfaLambdaToNFA a)) =
          map (\<lambda>s. isAccept s \<or>
                 (\<exists>i\<in>set (epsilonClosure [sid s] (transitions a)).
                    \<exists>st. find (\<lambda>st. sid st = i) (states a) = Some st \<and> isAccept st))
            (states a)"
    by (simp add: nfaLambdaToNFA_def Let_def hasAcceptInClosure_iff)
qed

theorem nfaLambdaToNFA_frame_witness:
  "LAMBDA \<notin> set (alphabet abb_nfaLambda) \<and>
   \<not> list_ex (\<lambda>t. symbol t = LAMBDA) (transitions abb_nfa) \<and>
   alphabet abb_nfa = alphabet abb_nfaLambda \<and>
   map sid (states abb_nfa) = map sid (states abb_nfaLambda) \<and>
   map isStart (states abb_nfa) = map isStart (states abb_nfaLambda)"
proof -
  have h: "LAMBDA \<notin> set (alphabet abb_nfaLambda)"
    unfolding abb_nfaLambda_def by code_simp
  from nfaLambdaToNFA_frame [OF h] h show ?thesis
    unfolding abb_stage2 by (simp add: list_ex_iff)
qed

section \<open>Symbols kept by the regex parser\<close>

lemma createBasicNFA_symbols:
  "symbol ` set (ftransitions (fst (createBasicNFA c h))) = {c}"
  by (simp add: createBasicNFA_def newState_def edge_def)

lemma concatenate_symbols:
  "symbol ` set (ftransitions nfa1) \<union> symbol ` set (ftransitions nfa2)
     \<subseteq> symbol ` set (ftransitions (fst (concatenate nfa1 nfa2 h)))"
  by (auto simp: concatenate_def Let_def)

lemma union_nfa_symbols:
  "symbol ` set (ftransitions nfa1) \<union> symbol ` set (ftransitions nfa2)
     \<subseteq> symbol ` set (ftransitions (fst (union_nfa nfa1 nfa2 h)))"
  by (auto simp: union_nfa_def newState_def Let_def)

lemma kleeneStar_symbols:
  "symbol ` set (ftransitions nfa) \<subseteq> symbol ` set (ftransitions (fst (kleeneStar nfa h)))"
  by (auto simp: kleeneStar_def newState_def Let_def)

lemma kleenePlus_symbols:
  "symbol ` set (ftransitions nfa) \<subseteq> symbol ` set (ftransitions (fst (kleenePlus nfa h)))"
  by (auto simp: kleenePlus_def newState_def Let_def)

lemma optional_symbols:
  "symbol ` set (ftransitions nfa) \<subseteq> symbol ` set (ftransitions (fst (optional nfa h)))"
  by (auto simp: optional_def newState_def Let_def)

lemma toFragment_symbols:
  "symbol ` set (ftransitions (fst (toFragment t h))) = tokenSymbols t"
  by (cases t) (simp_all add: createBasicNFA_symbols)

lemma reduceStep_symbols:
  "accSymbols acc \<union> tokenSymbols t \<subseteq> accSymbols (fst (reduceStep (acc, h) t))"
proof (cases acc)
  case None
  obtain frag h1 where tf: "toFragment t h = (frag, h1)"
    by (cases "toFragment t h")
  have "symbol ` set (ftransitions frag) = tokenSymbols t"
    using toFragment_symbols [of t h] tf by simp
  then show ?thesis
    using None tf by (simp add: reduceStep_def accSymbols_def)
next
  case (Some a)
  obtain frag h1 where tf: "toFragment t h = (frag, h1)"
    by (cases "toFragment t h")
  have "symbol ` set (ftransitions a) \<union> symbol ` set (ftransitions frag)
          \<subseteq> symbol ` set (ftransitions (fst (concatenate a frag h1)))"
    by (rule concatenate_symbols)
  moreover have "symbol ` set (ftransitions frag) = tokenSymbols t"
    using toFragment_symbols [of t h] tf by simp
  ultimately show ?thesis
    using Some tf
    by (cases "concatenate a frag h1") (simp add: reduceStep_def accSymbols_def)
qed

lemma reduceStep_fold_symbols:
  "accSymbols acc \<union> \<Union> (tokenSymbols ` set tokens)
     \<subseteq> accSymbols (fst (foldl reduceStep (acc, h) tokens))"
proof (induction tokens arbitrary: acc h)
  case Nil
  then show ?case by simp
next
  case (Cons t tokens)
  obtain acc1 h1 where step: "reduceStep (acc, h) t = (acc1, h1)"
    by (cases "reduceStep (acc, h) t")
  have "accSymbols acc \<union> tokenSymbols t \<subseteq> accSymbols acc1"
    using reduceStep_symbols [of acc t h] step by simp
  moreover have "accSymbols acc1 \<union> \<Union> (tokenSymbols ` set tokens)
      \<subseteq> accSymbols (fst (foldl reduceStep (acc1, h1) tokens))"
    by (rule Cons.IH)
  ultimately show ?case using step by auto
qed

lemma reduceTokens_symbols:
  "\<Union> (tokenSymbols ` set tokens) \<subseteq> accSymbols (fst (reduceTokens tokens h))"
  using reduceStep_fold_symbols [of None tokens h] by (simp add: reduceTokens_def)

lemma applyPostfix_symbols:
  assumes "tokens \<noteq> []"
    and "\<And>f h. symbol ` set (ftransitions f) \<subseteq> symbol ` set (ftransitions (fst (wrap f h)))"
  shows "\<Union> (tokenSymbols ` set tokens)
           \<subseteq> \<Union> (tokenSymbols ` set (fst (applyPostfix wrap tokens h)))"
proof -
  obtain f h1 where tf: "toFragment (last tokens) h = (f, h1)"
    by (cases "toFragment (last tokens) h")
  obtain g h2 where w: "wrap f h1 = (g, h2)"
    by (cases "wrap f h1")
  have res: "fst (applyPostfix wrap tokens h) = butlast tokens @ [Frag g]"
    using tf w by (simp add: applyPostfix_def)
  have "tokenSymbols (last tokens) = symbol ` set (ftransitions f)"
    using toFragment_symbols [of "last tokens" h] tf by simp
  also have "\<dots> \<subseteq> symbol ` set (ftransitions g)"
    using assms(2) [of f h1] w by simp
  finally have last: "tokenSymbols (last tokens) \<subseteq> tokenSymbols (Frag g)" by simp
  have "set tokens = set (butlast tokens) \<union> {last tokens}"
    using assms(1) by (cases tokens rule: rev_cases) auto
  then have "\<Union> (tokenSymbols ` set tokens) =
      \<Union> (tokenSymbols ` set (butlast tokens)) \<union> tokenSymbols (last tokens)"
    by auto
  with last show ?thesis unfolding res by auto
qed

lemma parseLoop_symbols:
  "\<Union> (tokenSymbols ` set tokens)
     \<subseteq> symbol ` set (ftransitions (fst (parseLoop expr i tokens h)))"
proof (induction expr i tokens h
    rule: parse_parseLoop.induct(2) [where P = "\<lambda>_ _. True"])
  case (1 expr h)
  then show ?case by simp
next
  case (2 expr i tokens h)
  let ?goal = "\<Union> (tokenSymbols ` set tokens)
     \<subseteq> symbol ` set (ftransitions (fst (parseLoop expr i tokens h)))"
  show ?case
  proof (cases "i < length expr")
    case False
    obtain res h1 where r: "reduceTokens tokens h = (res, h1)"
      by (cases "reduceTokens tokens h")
    have sub: "\<Union> (tokenSymbols ` set tokens) \<subseteq> accSymbols res"
      using reduceTokens_symbols [of tokens h] r by simp
    show ?thesis
    proof (cases res)
      case None
      with sub show ?thesis by (simp add: accSymbols_def)
    next
      case (Some f)
      then have "parseLoop expr i tokens h = (f, h1)"
        using False r by (subst parseLoop.simps) simp
      with sub Some show ?thesis by (simp add: accSymbols_def)
    qed
  next
    case inb: True
    show ?thesis
    proof (cases "[expr ! i] = ustr ''(''")
      case True
      obtain f h1 where p: "parse (slice expr (i + 1) (scanParen expr (i + 1) 1 - 1)) h = (f, h1)"
        by (cases "parse (slice expr (i + 1) (scanParen expr (i + 1) 1 - 1)) h")
      have eq: "parseLoop expr i tokens h =
          parseLoop expr (scanParen expr (i + 1) 1) (tokens @ [Frag f]) h1"
        using inb True p by (subst parseLoop.simps) simp
      from "2.IH"(1) [OF inb True p [symmetric]] show ?thesis
        unfolding eq by auto
    next
      case notParen: False
      show ?thesis
      proof (cases "[expr ! i] = ustr ''*'' \<and> 0 < length tokens")
        case True
        obtain ts h1 where a: "applyPostfix kleeneStar tokens h = (ts, h1)"
          by (cases "applyPostfix kleeneStar tokens h")
        have eq: "parseLoop expr i tokens h = parseLoop expr (i + 1) ts h1"
          using inb notParen True a by (subst parseLoop.simps) simp
        have "\<Union> (tokenSymbols ` set tokens) \<subseteq> \<Union> (tokenSymbols ` set ts)"
          using applyPostfix_symbols [of tokens kleeneStar h] kleeneStar_symbols True a
          by simp
        with "2.IH"(2) [OF inb notParen True a [symmetric]] show ?thesis
          unfolding eq by blast
      next
        case notStar: False
        show ?thesis
        proof (cases "[expr ! i] = ustr ''+'' \<and> 0 < length tokens")
          case True
          obtain ts h1 where a: "applyPostfix kleenePlus tokens h = (ts, h1)"
            by (cases "applyPostfix kleenePlus tokens h")
          have eq: "parseLoop expr i tokens h = parseLoop expr (i + 1) ts h1"
            using inb notParen notStar True a by (subst parseLoop.simps) simp
          have "\<Union> (tokenSymbols ` set tokens) \<subseteq> \<Union> (tokenSymbols ` set ts)"
            using applyPostfix_symbols [of tokens kleenePlus h] kleenePlus_symbols True a
            by simp
          with "2.IH"(3) [OF inb notParen notStar True a [symmetric]] show ?thesis
            unfolding eq by blast
        next
          case notPlus: False
          show ?thesis
          proof (cases "[expr ! i] = ustr ''?'' \<and> 0 < length tokens")
            case True
            obtain ts h1 where a: "applyPostfix optional tokens h = (ts, h1)"
              by (cases "applyPostfix optional tokens h")
            have eq: "parseLoop expr i tokens h = parseLoop expr (i + 1) ts h1"
              using inb notParen notStar notPlus True a by (subst parseLoop.simps) simp
            have "\<Union> (tokenSymbols ` set tokens) \<subseteq> \<Union> (tokenSymbols ` set ts)"
              using applyPostfix_symbols [of tokens optional h] optional_symbols True a
              by simp
            with "2.IH"(4) [OF inb notParen notStar notPlus True a [symmetric]] show ?thesis
              unfolding eq by blast
          next
            case notOpt: False
            show ?thesis
            proof (cases "[expr ! i] = ustr ''|''")
              case True
              obtain left h1 where r: "reduceTokens tokens h = (left, h1)"
                by (cases "reduceTokens tokens h")
              obtain right h2 where p: "parse (slice expr (i + 1) (length expr)) h1 = (right, h2)"
                by (cases "parse (slice expr (i + 1) (length expr)) h1")
              have sub: "\<Union> (tokenSymbols ` set tokens) \<subseteq> accSymbols left"
                using reduceTokens_symbols [of tokens h] r by simp
              show ?thesis
              proof (cases left)
                case None
                with sub show ?thesis by (simp add: accSymbols_def)
              next
                case (Some l)
                have eq: "parseLoop expr i tokens h = union_nfa l right h2"
                  using inb True r p Some
                  by (subst parseLoop.simps) (simp add: ustr_def)
                have "\<Union> (tokenSymbols ` set tokens) \<subseteq> symbol ` set (ftransitions l)"
                  using sub Some by (simp add: accSymbols_def)
                also have "\<dots> \<subseteq> symbol ` set (ftransitions (fst (union_nfa l right h2)))"
                  using union_nfa_symbols [of l right h2] by blast
                finally show ?thesis unfolding eq .
              qed
            next
              case notBar: False
              show ?thesis
              proof (cases "[expr ! i] \<noteq> ustr '' ''")
                case True
                have eq: "parseLoop expr i tokens h =
                    parseLoop expr (i + 1) (tokens @ [Lit [expr ! i]]) h"
                  using inb notParen notStar notPlus notOpt notBar True
                  by (subst parseLoop.simps) auto
                from "2.IH"(5) [OF inb notParen notStar notPlus notOpt notBar True]
                show ?thesis unfolding eq by auto
              next
                case False
                have eq: "parseLoop expr i tokens h = parseLoop expr (i + 1) tokens h"
                  using inb notParen notStar notPlus notOpt notBar False
                  by (subst parseLoop.simps) auto
                from "2.IH"(6) [OF inb notParen notStar notPlus notOpt notBar False]
                show ?thesis unfolding eq by auto
              qed
            qed
          qed
        qed
      qed
    qed
  qed
qed

lemma set_add_fold_set: "set (fold set_add xs acc) = set xs \<union> set acc"
  by (induction xs arbitrary: acc) (auto simp: set_add_def)

lemma new_Set_set: "set (new_Set xs) = set xs"
  by (simp add: new_Set_def set_add_fold_set)

lemma parse_leading_quantifier:
  assumes "q = ustr ''*'' \<or> q = ustr ''+'' \<or> q = ustr ''?''"
  shows "parse (q @ rest) h = parseLoop (q @ rest) 1 [Lit q] h"
proof -
  from assms obtain c where q: "q = [c]" and c: "c = 42 \<or> c = 43 \<or> c = 63"
    by (auto simp: ustr_def)
  have "parse (q @ rest) h = parseLoop (q @ rest) 0 [] h"
    using q by (subst parse.simps) simp
  also have "\<dots> = parseLoop (q @ rest) 1 [Lit q] h"
    using q c by (subst parseLoop.simps) (auto simp: ustr_def)
  finally show ?thesis .
qed

lemma scanParen_no_close:
  "of_char CHR '')'' \<notin> set (drop j expr) \<Longrightarrow> 0 < depth \<Longrightarrow> j \<le> length expr \<Longrightarrow>
   scanParen expr j depth = length expr"
proof (induction expr j depth rule: scanParen.induct)
  case (1 expr j depth)
  show ?case
  proof (cases "j < length expr")
    case False
    with "1.prems" show ?thesis by (subst scanParen.simps) simp
  next
    case True
    then have here: "expr ! j \<in> set (drop j expr)"
      by (metis Cons_nth_drop_Suc list.set_intros(1))
    with "1.prems"(1) have ne: "[expr ! j] \<noteq> ustr '')''"
      by (auto simp: ustr_def)
    let ?d = "if [expr ! j] = ustr ''('' then depth + 1 else depth"
    have unfold: "scanParen expr j depth = scanParen expr (j + 1) ?d"
      using True "1.prems"(2) ne by (subst scanParen.simps) (simp add: Let_def)
    have rest: "of_char CHR '')'' \<notin> set (drop (j + 1) expr)"
      using "1.prems"(1) by (metis Suc_eq_plus1 in_set_dropD drop_drop add.commute)
    have "scanParen expr (j + 1) (if [expr ! j] = ustr '')'' then ?d - 1 else ?d) = length expr"
      by (rule "1.IH" [OF _ refl refl]) (use True "1.prems"(2) ne rest in simp_all)
    then have "scanParen expr (j + 1) ?d = length expr"
      using ne by simp
    with unfold show ?thesis by simp
  qed
qed

lemma parse_unclosed_group:
  assumes "of_char CHR '')'' \<notin> set s"
  shows "parse (ustr ''('' @ s) h = parse (butlast s) h"
proof -
  let ?e = "ustr ''('' @ s"
  have len: "length ?e = length s + 1" by (simp add: ustr_def)
  have "drop (0 + 1) ?e = s" by (simp add: ustr_def)
  with assms have "of_char CHR '')'' \<notin> set (drop (0 + 1) ?e)" by simp
  then have scan: "scanParen ?e (0 + 1) 1 = length s + 1"
    using scanParen_no_close [of "0 + 1" ?e 1] len by simp
  have interior: "slice ?e (0 + 1) (scanParen ?e (0 + 1) 1 - 1) = butlast s"
    unfolding scan by (simp add: slice_def ustr_def butlast_conv_take)
  obtain f h1 where p: "parse (butlast s) h = (f, h1)"
    by (cases "parse (butlast s) h")
  have "parse ?e h = parseLoop ?e 0 [] h"
    by (subst parse.simps) (simp add: ustr_def)
  also have "\<dots> = parseLoop ?e (length s + 1) [Frag f] h1"
    using interior scan p by (subst parseLoop.simps) (simp add: ustr_def)
  also have "\<dots> = (f, h1)"
    using len
    by (subst parseLoop.simps)
       (simp add: reduceTokens_def reduceStep_def)
  finally show ?thesis using p by simp
qed

text \<open>
  Claim C1 says that a malformed regex, with unbalanced parentheses or a quantifier that
  has no operand, surfaces as a failure and never as an automaton. \<open>regexToNFALambda\<close>
  has no \<open>throw\<close>, and on such inputs it returns an automaton. The scan for the closing
  parenthesis stops at the end of the input, and \<open>expr.slice(i + 1, j - 1)\<close> then takes
  the last character for the closing parenthesis: \<open>(ab\<close> gives the automaton of \<open>a\<close>.
  A quantifier with no token before it falls through to the branch of the literals:
  \<open>*\<close> gives the automaton that reads the symbol \<open>*\<close>.
\<close>

theorem malformed_regex_returns_automaton:
  "regexToNFALambda (ustr ''(ab'') =
     \<lparr>states = [\<lparr>sid = ustr ''q0'', isStart = True, isAccept = False\<rparr>,
                \<lparr>sid = ustr ''q1'', isStart = False, isAccept = True\<rparr>],
      transitions = [\<lparr>tfrom = ustr ''q0'', tto = ustr ''q1'', symbol = ustr ''a''\<rparr>],
      alphabet = [ustr ''a'']\<rparr> \<and>
   regexToNFALambda (ustr ''*'') =
     \<lparr>states = [\<lparr>sid = ustr ''q0'', isStart = True, isAccept = False\<rparr>,
                \<lparr>sid = ustr ''q1'', isStart = False, isAccept = True\<rparr>],
      transitions = [\<lparr>tfrom = ustr ''q0'', tto = ustr ''q1'', symbol = ustr ''*''\<rparr>],
      alphabet = [ustr ''*'']\<rparr>"
  by code_simp

theorem malformed_regex_returns_automaton_witness:
  "regexToNFALambda (ustr ''(ab'') = regexToNFALambda (ustr ''a'')"
proof -
  have "regexToNFALambda (ustr ''a'') =
     \<lparr>states = [\<lparr>sid = ustr ''q0'', isStart = True, isAccept = False\<rparr>,
                \<lparr>sid = ustr ''q1'', isStart = False, isAccept = True\<rparr>],
      transitions = [\<lparr>tfrom = ustr ''q0'', tto = ustr ''q1'', symbol = ustr ''a''\<rparr>],
      alphabet = [ustr ''a'']\<rparr>"
    by code_simp
  with malformed_regex_returns_automaton show ?thesis by simp
qed

text \<open>
  How far the defect reaches. Every input that starts with \<open>*\<close>, \<open>+\<close> or \<open>?\<close> is
  accepted, with that character among the symbols of the automaton; and every input that
  opens with \<open>(\<close> and has no \<open>)\<close> is accepted as if it were the rest of the input
  without its last character.
\<close>

lemma leading_quantifier_accepted:
  assumes q: "q = ustr ''*'' \<or> q = ustr ''+'' \<or> q = ustr ''?''"
  shows "q \<in> set (alphabet (regexToNFALambda (q @ rest)))"
proof -
  have "\<Union> (tokenSymbols ` set [Lit q])
          \<subseteq> symbol ` set (ftransitions (fst (parseLoop (q @ rest) 1 [Lit q] [])))"
    by (rule parseLoop_symbols)
  then have "q \<in> symbol ` set (ftransitions (fst (parse (q @ rest) [])))"
    using parse_leading_quantifier [OF q, of rest "[]"] by simp
  moreover have "q \<noteq> LAMBDA" using q by (auto simp: ustr_def LAMBDA_def)
  ultimately show ?thesis
    by (cases "parse (q @ rest) []") (auto simp: regexToNFALambda_def new_Set_set)
qed

lemma unclosed_group_accepted:
  assumes "of_char CHR '')'' \<notin> set s"
  shows "regexToNFALambda (ustr ''('' @ s) = regexToNFALambda (butlast s)"
  using assms by (simp add: regexToNFALambda_def parse_unclosed_group)

section \<open>Accept directives with several ids\<close>

text \<open>
  Claim C7 says that a line with \<open>accept:\<close> or \<open>final:\<close> only marks accept states.
  The first pass of \<open>parseEdgeList\<close> does not set such lines apart: the line
  \<open>accept: q1, q2\<close>, the form the input panel documents, splits into three fields and
  is read as an edge from a new state \<open>accept:\<close> to \<open>q2\<close> on the symbol \<open>q1\<close>, which
  also joins the alphabet.
\<close>

theorem parseEdgeList_accept_line_as_edge:
  "parseEdgeList (ustr ''q0, a, q1\<newline>q1, b, q2\<newline>accept: q1, q2'') =
     \<lparr>states = [\<lparr>sid = ustr ''q0'', isStart = True, isAccept = False\<rparr>,
                \<lparr>sid = ustr ''q1'', isStart = False, isAccept = True\<rparr>,
                \<lparr>sid = ustr ''q2'', isStart = False, isAccept = True\<rparr>,
                \<lparr>sid = ustr ''accept:'', isStart = False, isAccept = False\<rparr>],
      transitions = [\<lparr>tfrom = ustr ''q0'', tto = ustr ''q1'', symbol = ustr ''a''\<rparr>,
                     \<lparr>tfrom = ustr ''q1'', tto = ustr ''q2'', symbol = ustr ''b''\<rparr>,
                     \<lparr>tfrom = ustr ''accept:'', tto = ustr ''q2'', symbol = ustr ''q1''\<rparr>],
      alphabet = [ustr ''a'', ustr ''b'', ustr ''q1'']\<rparr>"
  by code_simp

theorem parseEdgeList_accept_line_as_edge_witness:
  "length (transitions (parseEdgeList (ustr ''q0, a, q1\<newline>q1, b, q2\<newline>accept: q1, q2''))) = 3 \<and>
   length (transitions (parseEdgeList (ustr ''q0, a, q1\<newline>q1, b, q2\<newline>accept: q2''))) = 2"
proof -
  have "length (transitions (parseEdgeList (ustr ''q0, a, q1\<newline>q1, b, q2\<newline>accept: q2''))) = 2"
    by code_simp
  then show ?thesis
    unfolding parseEdgeList_accept_line_as_edge by simp
qed

text \<open>
  What does hold of the first pass: a line that splits into fewer than three fields, such
  as a directive with a single id, leaves the states, the transitions and the alphabet as
  they are.
\<close>

lemma edgeLine_short_line:
  "length (regexSplit sepCommaOrSpace (trim line)) < 3 \<Longrightarrow> edgeLine (i, line) w = w"
  by (cases w) (simp add: edgeLine_def Let_def)

lemma accept_single_id_fields:
  "regexSplit sepCommaOrSpace (trim (ustr ''accept: q2'')) = [ustr ''accept:'', ustr ''q2'']"
  by code_simp

section \<open>A start state with the empty id\<close>

text \<open>
  Claim C3 says that the automaton returned by \<open>nfaToDFA\<close> is deterministic. \<open>nfaToDFA\<close>
  stores the start subset under the key \<open>startSetKey\<close> as it is, while the loop names
  every subset, the start subset included, by its key with the empty-set sign standing
  in for the empty string. With a start state whose id is the empty string the two
  differ: the subset of a state named by the empty-set sign is taken for new, and the
  result has two transitions on \<open>a\<close> out of \<open>q1\<close>, to \<open>q1\<close> and to \<open>q2\<close> (and
  two states named \<open>q1\<close>). The edge list with the lines \<open>, a, \<emptyset>\<close> and
  \<open>\<emptyset>, a, x\<close> gives this automaton.
\<close>

theorem nfaToDFA_empty_start_id:
  "nfaToDFA
     \<lparr>states = [\<lparr>sid = [], isStart = True, isAccept = False\<rparr>,
                \<lparr>sid = EMPTYSET, isStart = False, isAccept = False\<rparr>,
                \<lparr>sid = ustr ''x'', isStart = False, isAccept = True\<rparr>],
      transitions = [\<lparr>tfrom = [], tto = EMPTYSET, symbol = ustr ''a''\<rparr>,
                     \<lparr>tfrom = EMPTYSET, tto = ustr ''x'', symbol = ustr ''a''\<rparr>],
      alphabet = [ustr ''a'']\<rparr> =
     \<lparr>states = [\<lparr>sid = ustr ''q1'', isStart = True, isAccept = False\<rparr>,
                \<lparr>sid = ustr ''q1'', isStart = False, isAccept = False\<rparr>,
                \<lparr>sid = ustr ''q2'', isStart = False, isAccept = True\<rparr>],
      transitions = [\<lparr>tfrom = ustr ''q1'', tto = ustr ''q1'', symbol = ustr ''a''\<rparr>,
                     \<lparr>tfrom = ustr ''q1'', tto = ustr ''q2'', symbol = ustr ''a''\<rparr>],
      alphabet = [ustr ''a'']\<rparr>"
  by code_simp

lemma edge_list_empty_start_id:
  "nfaLambdaToNFA (parseEdgeList ([44] @ ustr '' a, '' @ EMPTYSET @ [10] @ EMPTYSET @ ustr '', a, x'')) =
     \<lparr>states = [\<lparr>sid = [], isStart = True, isAccept = False\<rparr>,
                \<lparr>sid = EMPTYSET, isStart = False, isAccept = False\<rparr>,
                \<lparr>sid = ustr ''x'', isStart = False, isAccept = True\<rparr>],
      transitions = [\<lparr>tfrom = [], tto = EMPTYSET, symbol = ustr ''a''\<rparr>,
                     \<lparr>tfrom = EMPTYSET, tto = ustr ''x'', symbol = ustr ''a''\<rparr>],
      alphabet = [ustr ''a'']\<rparr>"
  by code_simp

theorem nfaToDFA_empty_start_id_witness:
  "length (filter (\<lambda>t. tfrom t = ustr ''q1'' \<and> symbol t = ustr ''a'')
     (transitions (nfaToDFA (nfaLambdaToNFA (parseEdgeList
        ([44] @ ustr '' a, '' @ EMPTYSET @ [10] @ EMPTYSET @ ustr '', a, x'')))))) = 2"
  unfolding edge_list_empty_start_id nfaToDFA_empty_start_id
  by (simp add: ustr_def)

section \<open>Determinism of the subset construction\<close>

lemma dfaSymbolStep_inv:
  assumes inv: "dfaStepInv k seen (ds, dt, q)" and c: "c \<notin> seen"
  shows "dfaStepInv k (insert c seen) (dfaSymbolStep sts trs cur k c (ds, dt, q))"
proof -
  let ?ns = "nextSetOf trs cur c"
  let ?nk = "setKey ?ns"
  let ?st = "\<lparr>sid = ?nk, isStart = False, isAccept = anyAccept sts ?ns\<rparr>"
  let ?p = "\<lambda>t. (tfrom t, symbol t)"
  from inv have a: "distinct (map fst ds)" and b: "distinct (map setKey q)"
    and cc: "setKey ` set q \<subseteq> fst ` set ds"
    and d: "distinct (map ?p dt)"
    and e: "tfrom ` set dt \<subseteq> fst ` set ds - setKey ` set q"
    and k1: "k \<in> fst ` set ds" and k2: "k \<notin> setKey ` set q"
    and f: "\<forall>t\<in>set dt. tfrom t = k \<longrightarrow> symbol t \<in> seen"
    by (simp_all add: dfaStepInv_def dfaInv_def)
  have newpair: "(k, c) \<notin> set (map ?p dt)"
    using f c by auto
  show ?thesis
  proof (cases "length ?ns > 0")
    case False
    then have "dfaSymbolStep sts trs cur k c (ds, dt, q) = (ds, dt, q)"
      by (simp add: dfaSymbolStep_def Let_def)
    with inv show ?thesis by (auto simp: dfaStepInv_def)
  next
    case ne: True
    show ?thesis
    proof (cases "Map_has ds ?nk")
      case True
      then have step: "dfaSymbolStep sts trs cur k c (ds, dt, q) =
          (ds, dt @ [\<lparr>tfrom = k, tto = ?nk, symbol = c\<rparr>], q)"
        using ne by (simp add: dfaSymbolStep_def Let_def)
      have "dfaInv (ds, dt @ [\<lparr>tfrom = k, tto = ?nk, symbol = c\<rparr>], q)"
        using a b cc d e k1 k2 newpair by (simp add: dfaInv_def)
      then show ?thesis
        unfolding step using k1 k2 f by (simp add: dfaStepInv_def)
    next
      case False
      then have nk: "?nk \<notin> fst ` set ds" by (simp add: Map_has_def)
      have step: "dfaSymbolStep sts trs cur k c (ds, dt, q) =
          (ds @ [(?nk, ?st)], dt @ [\<lparr>tfrom = k, tto = ?nk, symbol = c\<rparr>], q @ [?ns])"
        using ne False by (simp add: dfaSymbolStep_def Let_def Map_set_def)
      have nkq: "?nk \<notin> setKey ` set q" using nk cc by blast
      have kn: "k \<noteq> ?nk" using k1 nk by blast
      have "dfaInv (ds @ [(?nk, ?st)], dt @ [\<lparr>tfrom = k, tto = ?nk, symbol = c\<rparr>], q @ [?ns])"
        using a b cc d e k1 k2 newpair nk nkq kn by (auto simp: dfaInv_def)
      then show ?thesis
        unfolding step using k1 k2 kn f by (simp add: dfaStepInv_def)
    qed
  qed
qed

lemma dfaSymbolStep_fold_inv:
  assumes "dfaStepInv k seen w" and "distinct cs" and "set cs \<inter> seen = {}"
  shows "dfaStepInv k (seen \<union> set cs) (fold (dfaSymbolStep sts trs cur k) cs w)"
  using assms
proof (induction cs arbitrary: seen w)
  case Nil
  then show ?case by simp
next
  case (Cons c cs)
  obtain ds dt q where w: "w = (ds, dt, q)" by (cases w)
  have c: "c \<notin> seen" using Cons.prems(3) by simp
  have step: "dfaStepInv k (insert c seen) (dfaSymbolStep sts trs cur k c w)"
    using dfaSymbolStep_inv [OF _ c] Cons.prems(1) unfolding w by blast
  have "dfaStepInv k (insert c seen \<union> set cs)
          (fold (dfaSymbolStep sts trs cur k) cs (dfaSymbolStep sts trs cur k c w))"
    using Cons.prems(2,3) by (intro Cons.IH [OF step]) auto
  then show ?case by simp
qed

lemma nfaToDFALoop_inv:
  assumes "dfaInv (ds, dt, q)" and "distinct alph"
  shows "distinct (map fst (fst (nfaToDFALoop sts trs alph ds dt q))) \<and>
         distinct (map (\<lambda>t. (tfrom t, symbol t)) (snd (nfaToDFALoop sts trs alph ds dt q))) \<and>
         tfrom ` set (snd (nfaToDFALoop sts trs alph ds dt q))
           \<subseteq> fst ` set (fst (nfaToDFALoop sts trs alph ds dt q))"
  using assms
proof (induction sts trs alph ds dt q rule: nfaToDFALoop.induct)
  case (1 sts trs alph ds dt q)
  show ?case
  proof (cases q)
    case Nil
    then have "nfaToDFALoop sts trs alph ds dt q = (ds, dt)"
      by (subst nfaToDFALoop.simps) simp
    with "1.prems"(1) Nil show ?thesis by (auto simp: dfaInv_def)
  next
    case (Cons cur rest)
    let ?k = "setKey cur"
    obtain ds1 dt1 q1 where run:
      "fold (dfaSymbolStep sts trs cur ?k) alph (ds, dt, rest) = (ds1, dt1, q1)"
      by (cases "fold (dfaSymbolStep sts trs cur ?k) alph (ds, dt, rest)")
    have unfold: "nfaToDFALoop sts trs alph ds dt q = nfaToDFALoop sts trs alph ds1 dt1 q1"
      using Cons run by (subst nfaToDFALoop.simps) simp
    have "dfaStepInv ?k {} (ds, dt, rest)"
      using "1.prems"(1) Cons by (auto simp: dfaInv_def dfaStepInv_def)
    from dfaSymbolStep_fold_inv [OF this "1.prems"(2), of sts trs cur]
    have "dfaStepInv ?k (set alph) (ds1, dt1, q1)"
      using run by simp
    then have inv1: "dfaInv (ds1, dt1, q1)" by (simp add: dfaStepInv_def)
    have pos: "0 < length q" using Cons by simp
    have run': "(ds1, dt1, q1) =
        fold (dfaSymbolStep sts trs (hd q) (setKey (hd q))) alph (ds, dt, tl q)"
      using run Cons by simp
    from "1.IH" [OF pos run' refl inv1 "1.prems"(2)]
    show ?thesis unfolding unfold .
  qed
qed

lemma digits_nonempty: "digits n \<noteq> []"
  by (subst digits.simps) simp

lemma digits_inj: "digits m = digits n \<Longrightarrow> m = n"
proof (induction m arbitrary: n rule: digits.induct)
  case (1 m)
  have dm: "digits m = (if m < 10 then [48 + m] else digits (m div 10) @ [48 + m mod 10])"
    by (subst digits.simps) simp
  have dn: "digits n = (if n < 10 then [48 + n] else digits (n div 10) @ [48 + n mod 10])"
    by (subst digits.simps) simp
  show ?case
  proof (cases "m < 10")
    case True
    show ?thesis
    proof (cases "n < 10")
      case True
      with \<open>m < 10\<close> "1.prems" dm dn show ?thesis by simp
    next
      case False
      with True "1.prems" dm dn have "[48 + m] = digits (n div 10) @ [48 + n mod 10]"
        by simp
      then have "digits (n div 10) = []" by simp
      with digits_nonempty show ?thesis by blast
    qed
  next
    case False
    show ?thesis
    proof (cases "n < 10")
      case True
      with False "1.prems" dm dn have "digits (m div 10) @ [48 + m mod 10] = [48 + n]"
        by simp
      then have "digits (m div 10) = []" by simp
      with digits_nonempty show ?thesis by blast
    next
      case nf: False
      with False "1.prems" dm dn
      have "digits (m div 10) @ [48 + m mod 10] = digits (n div 10) @ [48 + n mod 10]"
        by simp
      then have eq: "digits (m div 10) = digits (n div 10)" and md: "m mod 10 = n mod 10"
        by simp_all
      from "1.IH" [OF False eq] have "m div 10 = n div 10" .
      with md show ?thesis by (metis div_mult_mod_eq)
    qed
  qed
qed

lemma stateMapping_fold:
  assumes "distinct (map fst ds)" and "fst ` set ds \<inter> fst ` set m = {}"
  shows "fold (\<lambda>e mc. case mc of (m, counter) \<Rightarrow>
                  (Map_set (fst e) (ustr ''q'' @ digits counter) m, counter + 1))
            ds (m, c) =
         (m @ zip (map fst ds) (map (\<lambda>i. ustr ''q'' @ digits i) [c ..< c + length ds]),
          c + length ds)"
  using assms
proof (induction ds arbitrary: m c)
  case Nil
  then show ?case by simp
next
  case (Cons e ds)
  have new: "Map_set (fst e) (ustr ''q'' @ digits c) m = m @ [(fst e, ustr ''q'' @ digits c)]"
    using Cons.prems(2) by (auto simp: Map_set_def Map_has_def)
  have d: "distinct (map fst ds)" using Cons.prems(1) by simp
  have disj: "fst ` set ds \<inter> fst ` set (m @ [(fst e, ustr ''q'' @ digits c)]) = {}"
    using Cons.prems by auto
  have upt: "[c ..< Suc (c + length ds)] = c # [Suc c ..< Suc (c + length ds)]"
    by (rule upt_conv_Cons) simp
  show ?case
    using Cons.IH [OF d disj, of "Suc c"] by (simp add: new upt del: upt_Suc)
qed

lemma stateMappingOf_zip:
  assumes "distinct (map fst ds)"
  shows "stateMappingOf ds =
           zip (map fst ds) (map (\<lambda>i. ustr ''q'' @ digits i) [0 ..< length ds])"
  using stateMapping_fold [OF assms, of "[]" 0] by (simp add: stateMappingOf_def)

lemma rename_key:
  assumes "distinct (map fst ds)" and "i < length ds"
  shows "getOrElse (Map_get (stateMappingOf ds) (fst (ds ! i))) (fst (ds ! i)) =
           ustr ''q'' @ digits i"
proof -
  have "map_of (zip (map fst ds) (map (\<lambda>i. ustr ''q'' @ digits i) [0 ..< length ds]))
          (map fst ds ! i) = Some (map (\<lambda>i. ustr ''q'' @ digits i) [0 ..< length ds] ! i)"
    using assms by (intro map_of_zip_nth) simp_all
  then have "Map_get (stateMappingOf ds) (fst (ds ! i)) = Some (ustr ''q'' @ digits i)"
    using assms by (simp add: stateMappingOf_zip Map_get_def)
  then show ?thesis by (simp add: getOrElse_def orElse_def ustr_def)
qed

lemma rename_inj:
  assumes "distinct (map fst ds)"
  shows "inj_on (\<lambda>k. getOrElse (Map_get (stateMappingOf ds) k) k) (fst ` set ds)"
proof (rule inj_onI)
  fix x y
  assume x: "x \<in> fst ` set ds" and y: "y \<in> fst ` set ds"
    and eq: "getOrElse (Map_get (stateMappingOf ds) x) x =
             getOrElse (Map_get (stateMappingOf ds) y) y"
  from x obtain i where i: "i < length ds" "x = fst (ds ! i)"
    by (auto simp: in_set_conv_nth)
  from y obtain j where j: "j < length ds" "y = fst (ds ! j)"
    by (auto simp: in_set_conv_nth)
  from eq have "ustr ''q'' @ digits i = ustr ''q'' @ digits j"
    using rename_key [OF assms i(1)] rename_key [OF assms j(1)] i(2) j(2) by simp
  then have "i = j" using digits_inj by simp
  with i j show "x = y" by simp
qed

lemma distinct_map_filter_le_one:
  "distinct (map f xs) \<Longrightarrow> length (filter (\<lambda>x. f x = y) xs) \<le> 1"
proof (induction xs)
  case Nil
  then show ?case by simp
next
  case (Cons x xs)
  show ?case
  proof (cases "f x = y")
    case True
    with Cons.prems have "filter (\<lambda>x. f x = y) xs = []"
      unfolding filter_empty_conv by (metis distinct.simps(2) image_eqI list.simps(9) set_map)
    with True show ?thesis by simp
  next
    case False
    with Cons show ?thesis by simp
  qed
qed

text \<open>
  What does hold of \<open>nfaToDFA\<close>: when the alphabet has no repeated symbol and the id of
  the start state is not the empty string, no two transitions of the result leave the same
  state on the same symbol.
\<close>

lemma nfaToDFA_deterministic_named_start:
  assumes alph: "distinct (alphabet nfa)"
    and start: "\<And>st. find isStart (states nfa) = Some st \<Longrightarrow> sid st \<noteq> []"
  shows "length (filter (\<lambda>t. tfrom t = s \<and> symbol t = a) (transitions (nfaToDFA nfa))) \<le> 1"
proof (cases "find isStart (states nfa)")
  case None
  then show ?thesis by (simp add: nfaToDFA_def)
next
  case (Some st)
  let ?ds0 = "[(sid st, \<lparr>sid = orElse (sid st) EMPTYSET, isStart = True,
                         isAccept = anyAccept (states nfa) [sid st]\<rparr>)]"
  obtain ds dt where loop:
    "nfaToDFALoop (states nfa) (transitions nfa) (alphabet nfa) ?ds0 [] [[sid st]] = (ds, dt)"
    by (cases "nfaToDFALoop (states nfa) (transitions nfa) (alphabet nfa) ?ds0 [] [[sid st]]")
  let ?rn = "\<lambda>k. getOrElse (Map_get (stateMappingOf ds) k) k"
  have key: "setKey [sid st] = sid st"
    using start [OF Some] by (simp add: setKey_def sortedKey_def orElse_def)
  have "dfaInv (?ds0, [], [[sid st]])"
    by (simp add: dfaInv_def key)
  from nfaToDFALoop_inv [OF this alph, of "states nfa" "transitions nfa"] loop
  have dk: "distinct (map fst ds)"
    and dp: "distinct (map (\<lambda>t. (tfrom t, symbol t)) dt)"
    and fr: "tfrom ` set dt \<subseteq> fst ` set ds"
    by simp_all
  have trs: "transitions (nfaToDFA nfa) =
      map (\<lambda>t. t\<lparr>tfrom := ?rn (tfrom t), tto := ?rn (tto t)\<rparr>) dt"
    using Some loop by (simp add: nfaToDFA_def Let_def sortedKey_def Map_set_def Map_has_def)
  have "inj_on (\<lambda>p. (?rn (fst p), snd p)) (set (map (\<lambda>t. (tfrom t, symbol t)) dt))"
  proof (rule inj_onI)
    fix p p'
    assume p: "p \<in> set (map (\<lambda>t. (tfrom t, symbol t)) dt)"
      and p': "p' \<in> set (map (\<lambda>t. (tfrom t, symbol t)) dt)"
      and eq: "(?rn (fst p), snd p) = (?rn (fst p'), snd p')"
    from p fr have m: "fst p \<in> fst ` set ds" by auto
    from p' fr have m': "fst p' \<in> fst ` set ds" by auto
    from eq have e: "?rn (fst p) = ?rn (fst p')" by simp
    have "fst p = fst p'"
      by (rule inj_onD [OF rename_inj [OF dk] e m m'])
    with eq show "p = p'" by (simp add: prod_eq_iff)
  qed
  with dp have "distinct (map (\<lambda>p. (?rn (fst p), snd p)) (map (\<lambda>t. (tfrom t, symbol t)) dt))"
    by (simp only: distinct_map)
  then have "distinct (map (\<lambda>t. (tfrom t, symbol t)) (transitions (nfaToDFA nfa)))"
    unfolding trs by (simp add: comp_def)
  from distinct_map_filter_le_one [OF this, of "(s, a)"]
  show ?thesis by (simp add: prod_eq_iff)
qed

section \<open>The transformations leave their argument as it was\<close>

text \<open>
  Each function on the store is related to the function on values it transcribes: a call
  from a store where the argument reads as \<open>A\<close> returns, leaves a store where the result
  reads as the value computed from \<open>A\<close>, and writes to the objects it has created
  itself only. The collection a loop goes over is read when the loop starts; no loop of
  the two functions writes to the collection it goes over.
\<close>

subsection \<open>Epsilon closure\<close>

lemma list_update_pair_again:
  "c \<noteq> k \<Longrightarrow> xs[c := a, k := b, c := a', k := b'] = xs[c := a', k := b']"
  by (metis list_update_overwrite list_update_swap)

lemma closureVisit_store_eq:
  assumes "c \<noteq> k" "c < length (strLists s)" "k < length (strLists s)"
  shows "closureVisit_store c k t s =
           s\<lparr>strLists := (strLists s)
              [c := fst (closureStep (strLists s ! c, strLists s ! k) (transitionObjs s ! t)),
               k := snd (closureStep (strLists s ! c, strLists s ! k) (transitionObjs s ! t))]\<rparr>"
  using assms
  by (simp add: closureVisit_store_def closureStep_pair addStr_def pushStr_def set_add_def
      list_update_swap)

lemma closureVisit_store_fold:
  assumes "c \<noteq> k" "c < length (strLists s)" "k < length (strLists s)"
  shows "fold (closureVisit_store c k) ts s =
           s\<lparr>strLists := (strLists s)
              [c := fst (foldl closureStep (strLists s ! c, strLists s ! k)
                           (map (\<lambda>t. transitionObjs s ! t) ts)),
               k := snd (foldl closureStep (strLists s ! c, strLists s ! k)
                           (map (\<lambda>t. transitionObjs s ! t) ts))]\<rparr>"
  using assms
proof (induction ts arbitrary: s)
  case Nil
  then show ?case by simp
next
  case (Cons t ts)
  let ?p = "closureStep (strLists s ! c, strLists s ! k) (transitionObjs s ! t)"
  let ?s1 = "s\<lparr>strLists := (strLists s)[c := fst ?p, k := snd ?p]\<rparr>"
  have step: "closureVisit_store c k t s = ?s1"
    by (rule closureVisit_store_eq [OF Cons.prems])
  have "fold (closureVisit_store c k) ts ?s1 =
          ?s1\<lparr>strLists := (strLists ?s1)
              [c := fst (foldl closureStep (strLists ?s1 ! c, strLists ?s1 ! k)
                           (map (\<lambda>t. transitionObjs ?s1 ! t) ts)),
               k := snd (foldl closureStep (strLists ?s1 ! c, strLists ?s1 ! k)
                           (map (\<lambda>t. transitionObjs ?s1 ! t) ts))]\<rparr>"
    using Cons.prems by (intro Cons.IH) simp_all
  then show ?case
    using Cons.prems by (simp add: step list_update_swap [of c k])
qed

lemma edgesOn_store_read:
  "map (\<lambda>t. transitionObjs s ! t) (edgesOn_store s ta st c) =
     edgesOn (readTransitions s ta) st c"
  by (simp add: edgesOn_store_def edgesOn_def readTransitions_def filter_map comp_def)

lemma epsilonClosureLoop_store_eq:
  assumes "c \<noteq> k" "c < length (strLists s)" "k < length (strLists s)"
    and "trs = readTransitions s ta" "cl = strLists s ! c" "st = strLists s ! k"
  shows "epsilonClosureLoop_store ta c k s =
           Some (s\<lparr>strLists := (strLists s)[c := epsilonClosureLoop trs cl st, k := []]\<rparr>)"
  using assms
proof (induction trs cl st arbitrary: s rule: epsilonClosureLoop.induct)
  case (1 trs cl st)
  show ?case
  proof (cases "length st > 0")
    case False
    then have "epsilonClosureLoop trs cl st = cl"
      by (subst epsilonClosureLoop.simps) simp
    moreover have "epsilonClosureLoop_store ta c k s = Some s"
      using False "1.prems" by (subst epsilonClosureLoop_store.simps) simp
    moreover have "(strLists s)[c := cl, k := []] = strLists s"
      using False "1.prems" by (metis length_greater_0_conv list_update_id)
    then have "s\<lparr>strLists := (strLists s)[c := cl, k := []]\<rparr> = s"
      by simp
    ultimately show ?thesis by simp
  next
    case True
    let ?s1 = "s\<lparr>strLists := (strLists s)[k := butlast st]\<rparr>"
    let ?ts = "edgesOn_store ?s1 ta (last st) LAMBDA"
    let ?s2 = "fold (closureVisit_store c k) ?ts ?s1"
    obtain cl1 st1 where run:
      "foldl closureStep (cl, butlast st) (lambdaEdgesFrom trs (last st)) = (cl1, st1)"
      by (cases "foldl closureStep (cl, butlast st) (lambdaEdgesFrom trs (last st))")
    have edges: "map (\<lambda>t. transitionObjs ?s1 ! t) ?ts = lambdaEdgesFrom trs (last st)"
      using edgesOn_store_read [of ?s1 ta "last st" LAMBDA] "1.prems"
      by (simp add: readTransitions_def edgesOn_def lambdaEdgesFrom_def)
    have s2: "?s2 = s\<lparr>strLists := (strLists s)[c := cl1, k := st1]\<rparr>"
      using closureVisit_store_fold [of c k ?s1 ?ts] "1.prems" run edges
      by (simp add: list_update_swap [of c k])
    have unfold_st: "epsilonClosureLoop_store ta c k s = epsilonClosureLoop_store ta c k ?s2"
      using True "1.prems" by (subst epsilonClosureLoop_store.simps) (simp add: popStr_def)
    have unfold: "epsilonClosureLoop trs cl st = epsilonClosureLoop trs cl1 st1"
      using True run by (subst epsilonClosureLoop.simps) simp
    let ?s3 = "s\<lparr>strLists := (strLists s)[c := cl1, k := st1]\<rparr>"
    have "epsilonClosureLoop_store ta c k ?s3 =
            Some (?s3\<lparr>strLists := (strLists ?s3)[c := epsilonClosureLoop trs cl1 st1, k := []]\<rparr>)"
    proof (rule "1.IH" [OF True run [symmetric]])
      show "c \<noteq> k" "c < length (strLists ?s3)" "k < length (strLists ?s3)"
        using "1.prems" by simp_all
      show "trs = readTransitions ?s3 ta"
        using "1.prems" by (simp add: readTransitions_def)
      show "cl1 = strLists ?s3 ! c" "st1 = strLists ?s3 ! k"
        using "1.prems" by simp_all
    qed
    then show ?thesis
      using "1.prems" unfolding unfold_st unfold s2 by (simp add: list_update_pair_again)
  qed
qed

lemma epsilonClosure_store_eq:
  assumes "sr < length (strLists s)"
  shows "epsilonClosure_store sr ta s =
           Some (length (strLists s),
                 s\<lparr>strLists := strLists s @
                     [epsilonClosure (strLists s ! sr) (readTransitions s ta), []]\<rparr>)"
proof -
  let ?L = "strLists s"
  let ?s2 = "s\<lparr>strLists := ?L @ [?L ! sr, ?L ! sr]\<rparr>"
  have "epsilonClosureLoop_store ta (length ?L) (length ?L + 1) ?s2 =
          Some (?s2\<lparr>strLists := (strLists ?s2)
             [length ?L := epsilonClosureLoop (readTransitions s ta) (?L ! sr) (?L ! sr),
              length ?L + 1 := []]\<rparr>)"
    by (rule epsilonClosureLoop_store_eq)
       (simp_all add: readTransitions_def nth_append)
  then show ?thesis
    using assms
    by (simp add: epsilonClosure_store_def newStrList_def nth_append epsilonClosure_def
        list_update_append)
qed

subsection \<open>Loops over a collection\<close>

lemma forEach_fold:
  assumes step: "\<And>x s. x \<in> set xs \<Longrightarrow> P s \<Longrightarrow> \<exists>s'. f x s = Some s' \<and> P s' \<and> \<alpha> s' = g x (\<alpha> s)"
    and init: "P s"
  shows "\<exists>s'. forEach xs f s = Some s' \<and> P s' \<and> \<alpha> s' = fold g xs (\<alpha> s)"
  using assms
proof (induction xs arbitrary: s)
  case Nil
  then show ?case by simp
next
  case (Cons x xs)
  from Cons.prems(1) [of x s] Cons.prems(2)
  obtain s1 where s1: "f x s = Some s1" "P s1" "\<alpha> s1 = g x (\<alpha> s)"
    by auto
  have "\<exists>s'. forEach xs f s1 = Some s' \<and> P s' \<and> \<alpha> s' = fold g xs (\<alpha> s1)"
    by (rule Cons.IH) (use Cons.prems(1) s1 in auto)
  then show ?case using s1 by simp
qed

lemma fold_store:
  assumes step: "\<And>x s. x \<in> set xs \<Longrightarrow> P s \<Longrightarrow> P (f x s) \<and> \<alpha> (f x s) = g x (\<alpha> s)"
    and init: "P s"
  shows "P (fold f xs s) \<and> \<alpha> (fold f xs s) = fold g xs (\<alpha> s)"
  using assms
proof (induction xs arbitrary: s)
  case Nil
  then show ?case by simp
next
  case (Cons x xs)
  have "P (f x s)" "\<alpha> (f x s) = g x (\<alpha> s)"
    using Cons.prems(1) [of x s] Cons.prems(2) by auto
  moreover have "P (fold f xs (f x s)) \<and> \<alpha> (fold f xs (f x s)) = fold g xs (\<alpha> (f x s))"
    by (rule Cons.IH) (use Cons.prems(1) calculation in auto)
  ultimately show ?case by simp
qed

subsection \<open>NFA-\<lambda> to NFA\<close>

lemma readTransitions_strLists [simp]:
  "readTransitions (s\<lparr>strLists := x\<rparr>) a = readTransitions s a"
  by (simp add: readTransitions_def)

lemma readStates_strLists [simp]:
  "readStates (s\<lparr>strLists := x\<rparr>) a = readStates s a"
  by (simp add: readStates_def)

lemma edgesOn_store_strLists [simp]:
  "edgesOn_store (s\<lparr>strLists := x\<rparr>) ta m c = edgesOn_store s ta m c"
  by (simp add: edgesOn_store_def)

lemma addStr_fold:
  assumes "a < length (strLists s)"
  shows "fold (addStr a) xs s = s\<lparr>strLists := (strLists s)[a := fold set_add xs (strLists s ! a)]\<rparr>"
  using assms
proof (induction xs arbitrary: s)
  case Nil
  then show ?case by simp
next
  case (Cons x xs)
  let ?s1 = "s\<lparr>strLists := (strLists s)[a := set_add x (strLists s ! a)]\<rparr>"
  have s1: "addStr a x s = ?s1"
    by (simp add: addStr_def)
  have "fold (addStr a) xs ?s1 =
          ?s1\<lparr>strLists := (strLists ?s1)[a := fold set_add xs (strLists ?s1 ! a)]\<rparr>"
    using Cons.prems by (intro Cons.IH) simp
  then show ?case using Cons.prems by (simp add: s1)
qed

text \<open>
  The stores a loop that fills the set \<open>reachable\<close> goes through: those of one store with
  another value of the set and more collections of strings.
\<close>

lemma reachVisit_store_eq:
  assumes "reach < length (strLists s)"
  shows "reachVisit_store ta reach t s =
           Some (s\<lparr>strLists := (strLists s)
                    [reach := fold set_add
                       (epsilonClosure [tto (transitionObjs s ! t)] (readTransitions s ta))
                       (strLists s ! reach)] @
                    [[tto (transitionObjs s ! t)],
                     epsilonClosure [tto (transitionObjs s ! t)] (readTransitions s ta), []]\<rparr>)"
proof -
  let ?s1 = "s\<lparr>strLists := strLists s @ [[tto (transitionObjs s ! t)]]\<rparr>"
  let ?cl = "epsilonClosure [tto (transitionObjs s ! t)] (readTransitions s ta)"
  let ?s2 = "?s1\<lparr>strLists := strLists ?s1 @ [?cl, []]\<rparr>"
  have cl: "epsilonClosure_store (length (strLists s)) ta ?s1 =
          Some (length (strLists ?s1), ?s2)"
    using epsilonClosure_store_eq [of "length (strLists s)" ?s1 ta] by simp
  have "fold (addStr reach) ?cl ?s2 =
          ?s2\<lparr>strLists := (strLists ?s2)[reach := fold set_add ?cl (strLists ?s2 ! reach)]\<rparr>"
    using assms by (intro addStr_fold) simp
  then show ?thesis
    using assms
    by (simp add: reachVisit_store_def newStrList_def cl nth_append list_update_append)
qed

lemma fills_refl: "fills s a s"
  unfolding fills_def
  by (rule exI [of _ "strLists s ! a"], rule exI [of _ "[]"]) simp

lemma fills_trans:
  assumes "fills s a s1" "fills s1 a s2" "a < length (strLists s)"
  shows "fills s a s2"
proof -
  from assms(1) obtain v ext where s1: "s1 = s\<lparr>strLists := (strLists s)[a := v] @ ext\<rparr>"
    unfolding fills_def by blast
  from assms(2) obtain v' ext' where s2: "s2 = s1\<lparr>strLists := (strLists s1)[a := v'] @ ext'\<rparr>"
    unfolding fills_def by blast
  have "s2 = s\<lparr>strLists := (strLists s)[a := v'] @ (ext @ ext')\<rparr>"
    using assms(3) by (simp add: s1 s2 list_update_append)
  then show ?thesis unfolding fills_def by blast
qed

lemma fills_facts:
  assumes "fills s a s'"
  shows "transitionObjs s' = transitionObjs s" "refArrays s' = refArrays s"
    "stateObjs s' = stateObjs s" "length (strLists s) \<le> length (strLists s')"
    "readTransitions s' ta = readTransitions s ta"
    "edgesOn_store s' ta m c = edgesOn_store s ta m c"
    "\<And>b. b < length (strLists s) \<Longrightarrow> b \<noteq> a \<Longrightarrow> strLists s' ! b = strLists s ! b"
  using assms unfolding fills_def by (auto simp: nth_append)

lemma reachVisit_fills:
  assumes "a < length (strLists s)"
  shows "\<exists>s'. reachVisit_store ta a t s = Some s' \<and> fills s a s' \<and>
           strLists s' ! a =
             fold set_add (epsilonClosure [tto (transitionObjs s ! t)] (readTransitions s ta))
               (strLists s ! a)"
  using assms unfolding fills_def
  by (simp add: reachVisit_store_eq nth_append) blast

lemma memberVisit_fills:
  assumes "a < length (strLists s)"
  shows "\<exists>s'. memberVisit_store ta a c m s = Some s' \<and> fills s a s' \<and>
           strLists s' ! a =
             fold (\<lambda>t. fold set_add (epsilonClosure [tto t] (readTransitions s ta)))
               (edgesOn (readTransitions s ta) m c) (strLists s ! a)"
proof -
  let ?trs = "readTransitions s ta"
  let ?g = "\<lambda>t. fold set_add (epsilonClosure [tto (transitionObjs s ! t)] ?trs)"
  have "\<exists>s'. forEach (edgesOn_store s ta m c) (reachVisit_store ta a) s = Some s' \<and>
          fills s a s' \<and>
          (\<lambda>s. strLists s ! a) s' = fold ?g (edgesOn_store s ta m c) ((\<lambda>s. strLists s ! a) s)"
  proof (rule forEach_fold [where P = "fills s a"])
    show "fills s a s" by (rule fills_refl)
  next
    fix t s1
    assume s1: "fills s a s1"
    have len: "a < length (strLists s1)"
      using fills_facts(4) [OF s1] assms by simp
    from reachVisit_fills [OF len, of ta t]
    obtain s2 where s2: "reachVisit_store ta a t s1 = Some s2" "fills s1 a s2"
      "strLists s2 ! a =
         fold set_add (epsilonClosure [tto (transitionObjs s1 ! t)] (readTransitions s1 ta))
           (strLists s1 ! a)"
      by blast
    show "\<exists>s'. reachVisit_store ta a t s1 = Some s' \<and> fills s a s' \<and>
            strLists s' ! a = ?g t (strLists s1 ! a)"
      using s2 fills_trans [OF s1 s2(2) assms] fills_facts(1,5) [OF s1] by simp
  qed
  moreover have "fold ?g (edgesOn_store s ta m c) =
                   fold (\<lambda>t. fold set_add (epsilonClosure [tto t] ?trs))
                     (map (\<lambda>t. transitionObjs s ! t) (edgesOn_store s ta m c))"
    by (simp add: fold_map comp_def)
  ultimately show ?thesis
    by (simp add: memberVisit_store_def edgesOn_store_read)
qed

lemma memberVisit_forEach:
  assumes "a < length (strLists s)"
  shows "\<exists>s'. forEach cl (memberVisit_store ta a c) s = Some s' \<and> fills s a s' \<and>
           strLists s' ! a =
             fold (\<lambda>m. fold (\<lambda>t. fold set_add (epsilonClosure [tto t] (readTransitions s ta)))
                          (edgesOn (readTransitions s ta) m c))
               cl (strLists s ! a)"
proof (rule forEach_fold [where P = "fills s a" and \<alpha> = "\<lambda>s. strLists s ! a"])
  show "fills s a s" by (rule fills_refl)
next
  fix m s1
  assume s1: "fills s a s1"
  have len: "a < length (strLists s1)"
    using fills_facts(4) [OF s1] assms by simp
  from memberVisit_fills [OF len, of ta c m]
  obtain s2 where s2: "memberVisit_store ta a c m s1 = Some s2" "fills s1 a s2"
    "strLists s2 ! a =
       fold (\<lambda>t. fold set_add (epsilonClosure [tto t] (readTransitions s1 ta)))
         (edgesOn (readTransitions s1 ta) m c) (strLists s1 ! a)"
    by blast
  show "\<exists>s'. memberVisit_store ta a c m s1 = Some s' \<and> fills s a s' \<and>
          strLists s' ! a =
            fold (\<lambda>t. fold set_add (epsilonClosure [tto t] (readTransitions s ta)))
              (edgesOn (readTransitions s ta) m c) (strLists s1 ! a)"
    using s2 fills_trans [OF s1 s2(2) assms] fills_facts(5) [OF s1] by simp
qed

lemma appends_refl: "appends s a s"
  unfolding appends_def
  by (rule exI [of _ "[]"], rule exI [of _ "[]"], rule exI [of _ "refArrays s ! a"]) simp

lemma appends_trans:
  assumes "appends s a s1" "appends s1 a s2"
  shows "appends s a s2"
proof -
  from assms(1) obtain ext ts rs where
    s1: "s1 = s\<lparr>strLists := strLists s @ ext, transitionObjs := transitionObjs s @ ts,
                 refArrays := (refArrays s)[a := rs]\<rparr>"
    unfolding appends_def by blast
  from assms(2) obtain ext' ts' rs' where
    s2: "s2 = s1\<lparr>strLists := strLists s1 @ ext', transitionObjs := transitionObjs s1 @ ts',
                  refArrays := (refArrays s1)[a := rs']\<rparr>"
    unfolding appends_def by blast
  have "s2 = s\<lparr>strLists := strLists s @ (ext @ ext'),
                transitionObjs := transitionObjs s @ (ts @ ts'),
                refArrays := (refArrays s)[a := rs']\<rparr>"
    by (simp add: s1 s2)
  then show ?thesis unfolding appends_def by blast
qed

lemma fills_appends:
  assumes "fills (s\<lparr>strLists := strLists s @ [x]\<rparr>) (length (strLists s)) s'"
  shows "appends s b s'"
proof -
  from assms obtain v ext where
    "s' = s\<lparr>strLists := (strLists s @ [x])[length (strLists s) := v] @ ext\<rparr>"
    unfolding fills_def by auto
  then have "s' = s\<lparr>strLists := strLists s @ ([v] @ ext), transitionObjs := transitionObjs s @ [],
                     refArrays := (refArrays s)[b := refArrays s ! b]\<rparr>"
    by simp
  then show ?thesis unfolding appends_def by blast
qed

lemma appends_facts:
  assumes "appends s a s'"
  shows "stateObjs s' = stateObjs s" "length (strLists s) \<le> length (strLists s')"
    "length (refArrays s') = length (refArrays s)"
    "length (transitionObjs s) \<le> length (transitionObjs s')"
    "\<And>b. b < length (strLists s) \<Longrightarrow> strLists s' ! b = strLists s ! b"
    "\<And>b. b \<noteq> a \<Longrightarrow> refArrays s' ! b = refArrays s ! b"
    "\<And>r. r < length (transitionObjs s) \<Longrightarrow> transitionObjs s' ! r = transitionObjs s ! r"
  using assms unfolding appends_def by (auto simp: nth_append)

lemma appends_wfTransitions:
  assumes "appends s a s'" "wfTransitions s b" "b \<noteq> a"
  shows "wfTransitions s' b" "readTransitions s' b = readTransitions s b"
  using assms appends_facts [OF assms(1)]
  unfolding wfTransitions_def readTransitions_def
  by (auto simp: list_all_iff)

lemma pushNew_store_appends:
  assumes "wfTransitions s a"
  shows "appends s a (pushNew_store a sr c r s) \<and> wfTransitions (pushNew_store a sr c r s) a \<and>
         readTransitions (pushNew_store a sr c r s) a =
           pushNew (sid (stateObjs s ! sr)) c r (readTransitions s a)"
proof (cases "list_ex (\<lambda>t. tfrom t = sid (stateObjs s ! sr) \<and> tto t = r \<and> symbol t = c)
                (readTransitions s a)")
  case True
  then have "pushNew_store a sr c r s = s"
    by (simp add: pushNew_store_def)
  then show ?thesis
    using True assms by (simp add: appends_refl pushNew_def)
next
  case False
  let ?t = "\<lparr>tfrom = sid (stateObjs s ! sr), tto = r, symbol = c\<rparr>"
  let ?s' = "s\<lparr>strLists := strLists s @ [], transitionObjs := transitionObjs s @ [?t],
                refArrays := (refArrays s)[a := refArrays s ! a @ [length (transitionObjs s)]]\<rparr>"
  have eq: "pushNew_store a sr c r s = ?s'"
    using False by (simp add: pushNew_store_def newTransitionObj_def pushRef_def)
  have "appends s a ?s'"
    unfolding appends_def by blast
  moreover have "wfTransitions ?s' a"
    using assms unfolding wfTransitions_def by (auto simp: list_all_iff)
  moreover have "readTransitions ?s' a = readTransitions s a @ [?t]"
    using assms unfolding wfTransitions_def readTransitions_def
    by (auto simp: list_all_iff nth_append)
  ultimately show ?thesis
    using False unfolding eq by (simp add: pushNew_def)
qed

lemma symbolStep_store_appends:
  assumes nt: "wfTransitions s nt" and ta: "wfTransitions s ta" "ta \<noteq> nt"
    and cl: "cl < length (strLists s)"
  shows "\<exists>s'. symbolStep_store ta nt sr cl c s = Some s' \<and> appends s nt s' \<and>
           wfTransitions s' nt \<and>
           readTransitions s' nt =
             symbolStep (readTransitions s ta) (stateObjs s ! sr) (strLists s ! cl) c
               (readTransitions s nt)"
proof -
  let ?a = "length (strLists s)"
  let ?s1 = "s\<lparr>strLists := strLists s @ [[]]\<rparr>"
  let ?R = "reachableFrom (readTransitions s ta) (strLists s ! cl) c"
  from memberVisit_forEach [of ?a ?s1 "strLists ?s1 ! cl" ta c]
  obtain s2 where s2: "forEach (strLists ?s1 ! cl) (memberVisit_store ta ?a c) ?s1 = Some s2"
    "fills ?s1 ?a s2" "strLists s2 ! ?a = ?R"
    using cl by (auto simp: reachableFrom_def nth_append)
  have app: "appends s nt s2"
    by (rule fills_appends [OF s2(2)])
  note f2 = fills_facts [OF s2(2)]
  let ?P = "\<lambda>s'. appends s nt s' \<and> wfTransitions s' nt"
  have "?P (fold (pushNew_store nt sr c) ?R s2) \<and>
        (\<lambda>s. readTransitions s nt) (fold (pushNew_store nt sr c) ?R s2) =
          fold (pushNew (sid (stateObjs s ! sr)) c) ?R ((\<lambda>s. readTransitions s nt) s2)"
  proof (rule fold_store [where P = ?P])
    show "?P s2"
      using app nt f2(1,2) by (simp add: wfTransitions_def)
  next
    fix r s3
    assume "?P s3"
    then have s3: "appends s nt s3" "wfTransitions s3 nt" by simp_all
    show "?P (pushNew_store nt sr c r s3) \<and>
          readTransitions (pushNew_store nt sr c r s3) nt =
            pushNew (sid (stateObjs s ! sr)) c r (readTransitions s3 nt)"
      using pushNew_store_appends [OF s3(2), of sr c r] appends_facts(1) [OF s3(1)]
        appends_trans [OF s3(1)]
      by simp
  qed
  moreover have "readTransitions s2 nt = readTransitions s nt"
    using f2(5) by simp
  ultimately show ?thesis
    using s2 by (simp add: symbolStep_store_def newStrList_def symbolStep_def)
qed

lemma stateStep_store_appends:
  assumes nt: "wfTransitions s nt" and ta: "wfTransitions s ta" "ta \<noteq> nt"
    and aa: "aa < length (strLists s)"
  shows "\<exists>s'. stateStep_store ta aa nt sr s = Some s' \<and> appends s nt s' \<and>
           wfTransitions s' nt \<and>
           readTransitions s' nt =
             stateStep (readTransitions s ta) (strLists s ! aa) (stateObjs s ! sr)
               (readTransitions s nt)"
proof -
  let ?L = "strLists s"
  let ?i = "sid (stateObjs s ! sr)"
  let ?trs = "readTransitions s ta"
  let ?cl = "epsilonClosure [?i] ?trs"
  let ?s1 = "s\<lparr>strLists := ?L @ [[?i]]\<rparr>"
  let ?s2 = "s\<lparr>strLists := ?L @ [[?i], ?cl, []]\<rparr>"
  let ?c = "Suc (length ?L)"
  have cl: "epsilonClosure_store (length ?L) ta ?s1 = Some (?c, ?s2)"
    using epsilonClosure_store_eq [of "length ?L" ?s1 ta] by simp
  have s2: "appends s nt ?s2"
    unfolding appends_def
    by (rule exI [of _ "[[?i], ?cl, []]"], rule exI [of _ "[]"],
        rule exI [of _ "refArrays s ! nt"]) simp
  let ?P = "\<lambda>s'. appends ?s2 nt s' \<and> wfTransitions s' nt"
  have "\<exists>s'. forEach (strLists ?s2 ! aa) (symbolStep_store ta nt sr ?c) ?s2 = Some s' \<and>
          ?P s' \<and>
          (\<lambda>s. readTransitions s nt) s' =
            fold (symbolStep ?trs (stateObjs s ! sr) ?cl) (strLists ?s2 ! aa)
              ((\<lambda>s. readTransitions s nt) ?s2)"
  proof (rule forEach_fold [where P = ?P])
    show "?P ?s2"
      using nt by (simp add: appends_refl wfTransitions_def)
  next
    fix c s3
    assume "?P s3"
    then have s3: "appends ?s2 nt s3" "wfTransitions s3 nt" by simp_all
    have ta2: "wfTransitions ?s2 ta"
      using ta by (simp add: wfTransitions_def)
    note f = appends_facts [OF s3(1)]
    from symbolStep_store_appends [OF s3(2) appends_wfTransitions(1) [OF s3(1) ta2 ta(2)] ta(2),
        of ?c sr c]
    obtain s4 where s4: "symbolStep_store ta nt sr ?c c s3 = Some s4" "appends s3 nt s4"
      "wfTransitions s4 nt"
      "readTransitions s4 nt =
         symbolStep (readTransitions s3 ta) (stateObjs s3 ! sr) (strLists s3 ! ?c) c
           (readTransitions s3 nt)"
      using f(2) by auto
    have "readTransitions s3 ta = ?trs"
      using appends_wfTransitions(2) [OF s3(1) ta2 ta(2)] by simp
    moreover have "strLists s3 ! ?c = ?cl"
      using f(5) [of ?c] by (simp add: nth_append)
    moreover have "stateObjs s3 = stateObjs s"
      using f(1) by simp
    ultimately show "\<exists>s'. symbolStep_store ta nt sr ?c c s3 = Some s' \<and> ?P s' \<and>
            readTransitions s' nt =
              symbolStep ?trs (stateObjs s ! sr) ?cl c (readTransitions s3 nt)"
      using s4 appends_trans [OF s3(1) s4(2)] by simp
  qed
  then obtain s' where s': "forEach (strLists ?s2 ! aa) (symbolStep_store ta nt sr ?c) ?s2 = Some s'"
    "appends ?s2 nt s'" "wfTransitions s' nt"
    "readTransitions s' nt =
       fold (symbolStep ?trs (stateObjs s ! sr) ?cl) (strLists ?s2 ! aa) (readTransitions ?s2 nt)"
    by blast
  have "strLists ?s2 ! aa = ?L ! aa"
    using aa by (simp add: nth_append)
  then show ?thesis
    using s' appends_trans [OF s2 s'(2)]
    by (simp add: stateStep_store_def newStrList_def cl stateStep_def)
qed

lemma stateStep_store_forEach:
  assumes nt: "wfTransitions s nt" and ta: "wfTransitions s ta" "ta \<noteq> nt"
    and aa: "aa < length (strLists s)"
  shows "\<exists>s'. forEach rs (stateStep_store ta aa nt) s = Some s' \<and> appends s nt s' \<and>
           wfTransitions s' nt \<and>
           readTransitions s' nt =
             fold (stateStep (readTransitions s ta) (strLists s ! aa))
               (map (\<lambda>r. stateObjs s ! r) rs) (readTransitions s nt)"
proof -
  let ?P = "\<lambda>s'. appends s nt s' \<and> wfTransitions s' nt"
  let ?g = "\<lambda>r. stateStep (readTransitions s ta) (strLists s ! aa) (stateObjs s ! r)"
  have "\<exists>s'. forEach rs (stateStep_store ta aa nt) s = Some s' \<and> ?P s' \<and>
          (\<lambda>s. readTransitions s nt) s' = fold ?g rs ((\<lambda>s. readTransitions s nt) s)"
  proof (rule forEach_fold [where P = ?P])
    show "?P s" using nt by (simp add: appends_refl)
  next
    fix r s3
    assume "?P s3"
    then have s3: "appends s nt s3" "wfTransitions s3 nt" by simp_all
    note f = appends_facts [OF s3(1)]
    have aa3: "aa < length (strLists s3)"
      using aa f(2) by simp
    from stateStep_store_appends [OF s3(2) appends_wfTransitions(1) [OF s3(1) ta] ta(2) aa3, of r]
    obtain s4 where s4: "stateStep_store ta aa nt r s3 = Some s4" "appends s3 nt s4"
      "wfTransitions s4 nt"
      "readTransitions s4 nt =
         stateStep (readTransitions s3 ta) (strLists s3 ! aa) (stateObjs s3 ! r)
           (readTransitions s3 nt)"
      by auto
    show "\<exists>s'. stateStep_store ta aa nt r s3 = Some s' \<and> ?P s' \<and>
            readTransitions s' nt = ?g r (readTransitions s3 nt)"
      using s4 appends_trans [OF s3(1) s4(2)] appends_wfTransitions(2) [OF s3(1) ta]
        f(1) f(5) [OF aa]
      by simp
  qed
  then show ?thesis by (simp add: fold_map comp_def)
qed

lemma newStateOf_store_eq:
  "newStateOf_store sa ta r s =
     Some (length (stateObjs s),
           s\<lparr>strLists := strLists s @
                [[sid (stateObjs s ! r)],
                 epsilonClosure [sid (stateObjs s ! r)] (readTransitions s ta), []],
             stateObjs := stateObjs s @
                [acceptUpdate (readStates s sa) (readTransitions s ta) (stateObjs s ! r)]\<rparr>)"
proof -
  let ?L = "strLists s"
  let ?i = "sid (stateObjs s ! r)"
  let ?s1 = "s\<lparr>strLists := ?L @ [[?i]]\<rparr>"
  let ?s2 = "s\<lparr>strLists := ?L @ [[?i], epsilonClosure [?i] (readTransitions s ta), []]\<rparr>"
  have cl: "epsilonClosure_store (length ?L) ta ?s1 = Some (Suc (length ?L), ?s2)"
    using epsilonClosure_store_eq [of "length ?L" ?s1 ta] by simp
  show ?thesis
    by (simp add: newStateOf_store_def newStrList_def cl newStateObj_def acceptUpdate_def
        hasAcceptInClosure_def nth_append)
qed

lemma readStates_append:
  assumes "wfStates s sa"
  shows "readStates (s\<lparr>strLists := x, stateObjs := stateObjs s @ y\<rparr>) sa = readStates s sa"
  using assms unfolding wfStates_def readStates_def
  by (auto simp: list_all_iff nth_append)

lemma readTransitions_stateObjs [simp]:
  "readTransitions (s\<lparr>stateObjs := x\<rparr>) a = readTransitions s a"
  by (simp add: readTransitions_def)

lemma newStateOf_store_mapRefs:
  assumes "wfStates s sa" "list_all (\<lambda>r. r < length (stateObjs s)) rs"
  shows "\<exists>ext. mapRefs rs (newStateOf_store sa ta) s =
           Some ([length (stateObjs s) ..< length (stateObjs s) + length rs],
                 s\<lparr>strLists := strLists s @ ext,
                   stateObjs := stateObjs s @
                     map (\<lambda>r. acceptUpdate (readStates s sa) (readTransitions s ta)
                                (stateObjs s ! r)) rs\<rparr>)"
  using assms
proof (induction rs arbitrary: s)
  case Nil
  have "s = s\<lparr>strLists := strLists s @ [], stateObjs := stateObjs s @ []\<rparr>" by simp
  then show ?case by (auto intro: exI [of _ "[]"])
next
  case (Cons r rs)
  let ?e = "[[sid (stateObjs s ! r)],
             epsilonClosure [sid (stateObjs s ! r)] (readTransitions s ta), []]"
  let ?v = "acceptUpdate (readStates s sa) (readTransitions s ta) (stateObjs s ! r)"
  let ?s1 = "s\<lparr>strLists := strLists s @ ?e, stateObjs := stateObjs s @ [?v]\<rparr>"
  have wf1: "wfStates ?s1 sa"
    using Cons.prems(1) unfolding wfStates_def by (auto simp: list_all_iff)
  have rs1: "list_all (\<lambda>r. r < length (stateObjs ?s1)) rs"
    using Cons.prems(2) by (auto simp: list_all_iff)
  from Cons.IH [OF wf1 rs1] obtain ext where
    ih: "mapRefs rs (newStateOf_store sa ta) ?s1 =
           Some ([length (stateObjs ?s1) ..< length (stateObjs ?s1) + length rs],
                 ?s1\<lparr>strLists := strLists ?s1 @ ext,
                     stateObjs := stateObjs ?s1 @
                       map (\<lambda>r. acceptUpdate (readStates ?s1 sa) (readTransitions ?s1 ta)
                                  (stateObjs ?s1 ! r)) rs\<rparr>)"
    by blast
  have rd: "readStates ?s1 sa = readStates s sa"
    by (rule readStates_append [OF Cons.prems(1)])
  have mp: "map (\<lambda>r. acceptUpdate (readStates s sa) (readTransitions s ta) ((stateObjs s @ [?v]) ! r)) rs =
            map (\<lambda>r. acceptUpdate (readStates s sa) (readTransitions s ta) (stateObjs s ! r)) rs"
    using Cons.prems(2) by (auto simp: list_all_iff nth_append)
  have up: "[length (stateObjs s) ..< length (stateObjs s) + length (r # rs)] =
            length (stateObjs s) # [Suc (length (stateObjs s)) ..< Suc (length (stateObjs s)) + length rs]"
    by (simp add: upt_conv_Cons del: upt_Suc)
  have "mapRefs (r # rs) (newStateOf_store sa ta) s =
          Some ([length (stateObjs s) ..< length (stateObjs s) + length (r # rs)],
                s\<lparr>strLists := strLists s @ (?e @ ext),
                  stateObjs := stateObjs s @
                    map (\<lambda>r. acceptUpdate (readStates s sa) (readTransitions s ta)
                               (stateObjs s ! r)) (r # rs)\<rparr>)"
    unfolding up using ih unfolding rd
    by (simp add: newStateOf_store_eq mp del: upt_Suc)
  then show ?case by blast
qed

lemma map_nth_upt_append:
  "map (\<lambda>i. (xs @ ys) ! i) [length xs ..< length xs + length ys] = ys"
  by (rule nth_equalityI) (simp_all add: nth_append)

lemma readStates_new:
  assumes "refArrays s ! k = [length xs ..< length xs + length ys]" "stateObjs s = xs @ ys"
  shows "readStates s k = ys"
  unfolding readStates_def assms by (rule map_nth_upt_append)

lemma nfaLambdaToNFA_acceptUpdate:
  "nfaLambdaToNFA A =
     \<lparr>states = map (acceptUpdate (states A) (transitions A)) (states A),
      transitions = fold (stateStep (transitions A) (alphabet A)) (states A) [],
      alphabet = alphabet A\<rparr>"
  by (simp add: nfaLambdaToNFA_def Let_def acceptUpdate_def)

lemma nfaLambdaToNFA_store_correct:
  assumes "isAutomaton s a"
  shows "\<exists>s'. nfaLambdaToNFA_store a s = Some (length (automata s), s') \<and> extends s s' \<and>
           isAutomaton s' (length (automata s)) \<and>
           readAutomaton s' (length (automata s)) = nfaLambdaToNFA (readAutomaton s a) \<and>
           snd (snd (automata s' ! length (automata s))) = snd (snd (automata s ! a))"
proof -
  obtain sa ta aa where a: "automata s ! a = (sa, ta, aa)"
    by (cases "automata s ! a")
  let ?RA = "refArrays s"
  let ?nt = "length ?RA"
  let ?SO = "stateObjs s"
  let ?s1 = "s\<lparr>refArrays := ?RA @ [[]]\<rparr>"
  have wf: "sa < ?nt" "ta < ?nt" "aa < length (strLists s)"
    "list_all (\<lambda>r. r < length ?SO) (?RA ! sa)"
    "list_all (\<lambda>r. r < length (transitionObjs s)) (?RA ! ta)"
    using assms a by (simp_all add: isAutomaton_def)
  have nt1: "wfTransitions ?s1 ?nt" and ta1: "wfTransitions ?s1 ta" "ta \<noteq> ?nt"
    and aa1: "aa < length (strLists ?s1)"
    using wf by (simp_all add: wfTransitions_def nth_append)
  let ?sts = "readStates s sa"
  let ?trs = "readTransitions s ta"
  let ?alph = "strLists s ! aa"
  from stateStep_store_forEach [OF nt1 ta1 aa1, of "?RA ! sa"]
  obtain s2 where s2: "forEach (?RA ! sa) (stateStep_store ta aa ?nt) ?s1 = Some s2"
    "appends ?s1 ?nt s2" "wfTransitions s2 ?nt"
    "readTransitions s2 ?nt = fold (stateStep ?trs ?alph) ?sts []"
    using wf by (auto simp: readTransitions_def readStates_def nth_append)
  from s2(2) obtain ext ts rs2 where
    "s2 = ?s1\<lparr>strLists := strLists ?s1 @ ext, transitionObjs := transitionObjs ?s1 @ ts,
                refArrays := (refArrays ?s1)[?nt := rs2]\<rparr>"
    unfolding appends_def by blast
  then have s2_eq: "s2 = s\<lparr>strLists := strLists s @ ext,
                             transitionObjs := transitionObjs s @ ts,
                             refArrays := ?RA @ [rs2]\<rparr>"
    by simp
  have rs2: "list_all (\<lambda>r. r < length (transitionObjs s @ ts)) rs2"
    using s2(3) by (simp add: wfTransitions_def s2_eq)
  have nt2: "map (\<lambda>r. (transitionObjs s @ ts) ! r) rs2 = fold (stateStep ?trs ?alph) ?sts []"
    using s2(4) by (simp add: readTransitions_def s2_eq)
  have sa2: "wfStates s2 sa" "list_all (\<lambda>r. r < length (stateObjs s2)) (?RA ! sa)"
    using wf by (simp_all add: wfStates_def s2_eq nth_append)
  have rd2: "readStates s2 sa = ?sts" "readTransitions s2 ta = ?trs" "stateObjs s2 = ?SO"
    using wf
    by (auto simp: readStates_def readTransitions_def s2_eq nth_append list_all_iff)
  let ?new = "map (acceptUpdate ?sts ?trs) ?sts"
  from newStateOf_store_mapRefs [OF sa2, of ta] obtain ext2 where
    "mapRefs (?RA ! sa) (newStateOf_store sa ta) s2 =
       Some ([length (stateObjs s2) ..< length (stateObjs s2) + length (?RA ! sa)],
             s2\<lparr>strLists := strLists s2 @ ext2,
                stateObjs := stateObjs s2 @
                  map (\<lambda>r. acceptUpdate (readStates s2 sa) (readTransitions s2 ta)
                             (stateObjs s2 ! r)) (?RA ! sa)\<rparr>)"
    by blast
  then have s3: "mapRefs (?RA ! sa) (newStateOf_store sa ta) s2 =
       Some ([length ?SO ..< length ?SO + length ?new],
             s2\<lparr>strLists := strLists s2 @ ext2, stateObjs := ?SO @ ?new\<rparr>)"
    unfolding rd2 by (simp add: readStates_def comp_def)
  let ?s' = "s\<lparr>strLists := strLists s @ (ext @ ext2),
                transitionObjs := transitionObjs s @ ts,
                refArrays := ?RA @ [rs2, [length ?SO ..< length ?SO + length ?new]],
                stateObjs := ?SO @ ?new,
                automata := automata s @ [(Suc ?nt, ?nt, aa)]\<rparr>"
  have run: "nfaLambdaToNFA_store a s = Some (length (automata s), ?s')"
    using wf s2(1) s3
    by (simp add: nfaLambdaToNFA_store_def a newRefArray_def newAutomaton_def nth_append s2_eq
        del: upt_Suc)
  have ext: "extends s ?s'"
    by (simp add: extends_def)
  have isA: "isAutomaton ?s' (length (automata s))"
    using wf rs2 by (simp add: isAutomaton_def nth_append list_all_iff del: upt_Suc)
  have cells: "refArrays ?s' ! Suc ?nt = [length ?SO ..< length ?SO + length ?new]"
    "refArrays ?s' ! ?nt = rs2" "automata ?s' ! length (automata s) = (Suc ?nt, ?nt, aa)"
    "strLists ?s' ! aa = ?alph"
    using wf by (simp_all add: nth_append del: upt_Suc)
  have rdS: "readStates ?s' (Suc ?nt) = ?new"
    by (rule readStates_new [where xs = ?SO]) (simp_all add: nth_append del: upt_Suc)
  have "readTransitions ?s' ?nt = map (\<lambda>r. (transitionObjs s @ ts) ! r) rs2"
    by (simp add: readTransitions_def)
  then have rdT: "readTransitions ?s' ?nt = fold (stateStep ?trs ?alph) ?sts []"
    using nt2 by simp
  have "readAutomaton ?s' (length (automata s)) =
          \<lparr>states = ?new, transitions = fold (stateStep ?trs ?alph) ?sts [], alphabet = ?alph\<rparr>"
    using rdS rdT cells(4) by (simp add: readAutomaton_def del: upt_Suc)
  also have "\<dots> = nfaLambdaToNFA (readAutomaton s a)"
    by (simp add: nfaLambdaToNFA_acceptUpdate readAutomaton_def a)
  finally have "readAutomaton ?s' (length (automata s)) = nfaLambdaToNFA (readAutomaton s a)" .
  then show ?thesis
    using run ext isA cells(3) a by simp
qed

subsection \<open>NFA to DFA\<close>

lemma sortedKey_store_eq:
  "sortedKey_store m s =
     (sortedKey (strLists s ! m), s\<lparr>strLists := strLists s @ [sort (strLists s ! m)]\<rparr>)"
  by (simp add: sortedKey_store_def newStrList_def sortStr_def sortedKey_def)

lemma addTargets_fold:
  assumes "a < length (strLists s)"
  shows "fold (\<lambda>t s. addStr a (tto (transitionObjs s ! t)) s) ts s =
           s\<lparr>strLists := (strLists s)
              [a := fold (\<lambda>t. set_add (tto (transitionObjs s ! t))) ts (strLists s ! a)]\<rparr>"
  using assms
proof (induction ts arbitrary: s)
  case Nil
  then show ?case by simp
next
  case (Cons t ts)
  let ?s1 = "s\<lparr>strLists := (strLists s)[a := set_add (tto (transitionObjs s ! t)) (strLists s ! a)]\<rparr>"
  have s1: "addStr a (tto (transitionObjs s ! t)) s = ?s1"
    by (simp add: addStr_def)
  have "fold (\<lambda>t s. addStr a (tto (transitionObjs s ! t)) s) ts ?s1 =
          ?s1\<lparr>strLists := (strLists ?s1)
              [a := fold (\<lambda>t. set_add (tto (transitionObjs ?s1 ! t))) ts (strLists ?s1 ! a)]\<rparr>"
    using Cons.prems by (intro Cons.IH) simp
  then show ?case using Cons.prems by (simp add: s1)
qed

lemma nextVisit_store_eq:
  assumes "a < length (strLists s)"
  shows "nextVisit_store ta a c m s =
           s\<lparr>strLists := (strLists s)
              [a := fold (\<lambda>t. set_add (tto t)) (edgesOn (readTransitions s ta) m c)
                      (strLists s ! a)]\<rparr>"
proof -
  have "fold (\<lambda>t. set_add (tto (transitionObjs s ! t))) (edgesOn_store s ta m c) =
        fold (\<lambda>t. set_add (tto t)) (map (\<lambda>t. transitionObjs s ! t) (edgesOn_store s ta m c))"
    by (simp add: fold_map comp_def)
  then show ?thesis
    using assms by (simp add: nextVisit_store_def addTargets_fold edgesOn_store_read)
qed

lemma nextVisit_store_fold:
  assumes "a < length (strLists s)"
  shows "fold (nextVisit_store ta a c) cur s =
           s\<lparr>strLists := (strLists s)
              [a := fold (\<lambda>m. fold (\<lambda>t. set_add (tto t)) (edgesOn (readTransitions s ta) m c))
                      cur (strLists s ! a)]\<rparr>"
  using assms
proof (induction cur arbitrary: s)
  case Nil
  then show ?case by simp
next
  case (Cons m cur)
  let ?s1 = "s\<lparr>strLists := (strLists s)
              [a := fold (\<lambda>t. set_add (tto t)) (edgesOn (readTransitions s ta) m c)
                      (strLists s ! a)]\<rparr>"
  have s1: "nextVisit_store ta a c m s = ?s1"
    by (rule nextVisit_store_eq [OF Cons.prems])
  have "fold (nextVisit_store ta a c) cur ?s1 =
          ?s1\<lparr>strLists := (strLists ?s1)
              [a := fold (\<lambda>m. fold (\<lambda>t. set_add (tto t)) (edgesOn (readTransitions ?s1 ta) m c))
                      cur (strLists ?s1 ! a)]\<rparr>"
    using Cons.prems by (intro Cons.IH) simp
  then show ?case using Cons.prems by (simp add: s1)
qed

lemma growsI:
  assumes "s' = s\<lparr>strLists := strLists s @ ext, stateObjs := stateObjs s @ sts,
               transitionObjs := transitionObjs s @ ts,
               stateMaps := (stateMaps s)[ds := m],
               refArrays := (refArrays s)[dt := rt, q := rq]\<rparr>"
  shows "grows s ds dt q s'"
  using assms unfolding grows_def by blast

lemma anyAccept_store_read:
  "anyAccept_store sa m s = anyAccept (readStates s sa) (strLists s ! m)"
  by (auto simp: anyAccept_store_def anyAccept_def readStates_def list_ex_iff)

lemma Map_has_absMap: "Map_has (absMap s ds) k = Map_has (stateMaps s ! ds) k"
  by (simp add: Map_has_def absMap_def image_image)

lemma dfaSymbolStep_store_unfold:
  assumes cs: "cs < length (strLists s)"
    and N_def: "N = nextSetOf (readTransitions s ta) (strLists s ! cs) c"
    and s3_def: "s3 = s\<lparr>strLists := strLists s @ [N, sort N]\<rparr>"
    and ns_def: "ns = length (strLists s)"
    and nk_def: "nk = setKey N"
  shows "dfaSymbolStep_store sa ta ds dt q cs ck c s =
           (if N = [] then s3
            else if Map_has (absMap s ds) nk
            then s3\<lparr>transitionObjs := transitionObjs s @ [\<lparr>tfrom = ck, tto = nk, symbol = c\<rparr>],
                    refArrays := (refArrays s)[dt := refArrays s ! dt @ [length (transitionObjs s)]]\<rparr>
            else s3\<lparr>stateObjs := stateObjs s @
                       [\<lparr>sid = nk, isStart = False, isAccept = anyAccept (readStates s sa) N\<rparr>],
                    stateMaps := (stateMaps s)
                       [ds := stateMaps s ! ds @ [(nk, length (stateObjs s))]],
                    transitionObjs := transitionObjs s @ [\<lparr>tfrom = ck, tto = nk, symbol = c\<rparr>],
                    refArrays := (refArrays s)
                       [q := refArrays s ! q @ [ns],
                        dt := (refArrays s)[q := refArrays s ! q @ [ns]] ! dt @
                                [length (transitionObjs s)]]\<rparr>)"
proof -
  let ?L = "strLists s"
  let ?s1 = "s\<lparr>strLists := ?L @ [[]]\<rparr>"
  let ?N = "nextSetOf (readTransitions s ta) (?L ! cs) c"
  have "fold (nextVisit_store ta (length ?L) c) (?L ! cs) ?s1 =
          ?s1\<lparr>strLists := (strLists ?s1)
             [length ?L :=
                fold (\<lambda>m. fold (\<lambda>t. set_add (tto t)) (edgesOn (readTransitions ?s1 ta) m c))
                  (?L ! cs) (strLists ?s1 ! length ?L)]\<rparr>"
    by (rule nextVisit_store_fold) simp
  then have s2: "fold (nextVisit_store ta (length ?L) c) (?L ! cs) ?s1 = s\<lparr>strLists := ?L @ [?N]\<rparr>"
    by (simp add: nextSetOf_def)
  show ?thesis
    unfolding N_def s3_def ns_def nk_def using cs
    by (simp add: dfaSymbolStep_store_def newStrList_def nth_append s2 sortedKey_store_eq
        anyAccept_store_read Map_has_absMap newTransitionObj_def pushRef_def newStateObj_def
        setStateMap_def Map_set_def setKey_def)
qed

lemma dfaSymbolStep_store_sim:
  assumes wf: "wfWork s ds dt q" and cs: "cs < length (strLists s)"
  shows "grows s ds dt q (dfaSymbolStep_store sa ta ds dt q cs ck c s) \<and>
         wfWork (dfaSymbolStep_store sa ta ds dt q cs ck c s) ds dt q \<and>
         readWork (dfaSymbolStep_store sa ta ds dt q cs ck c s) ds dt q =
           dfaSymbolStep (readStates s sa) (readTransitions s ta) (strLists s ! cs) ck c
             (readWork s ds dt q)"
proof -
  let ?L = "strLists s"
  let ?N = "nextSetOf (readTransitions s ta) (?L ! cs) c"
  let ?s3 = "s\<lparr>strLists := ?L @ [?N, sort ?N]\<rparr>"
  let ?nk = "setKey ?N"
  let ?t = "\<lparr>tfrom = ck, tto = ?nk, symbol = c\<rparr>"
  let ?st = "\<lparr>sid = ?nk, isStart = False, isAccept = anyAccept (readStates s sa) ?N\<rparr>"
  let ?s' = "dfaSymbolStep_store sa ta ds dt q cs ck c s"
  note step = dfaSymbolStep_store_unfold [OF cs refl refl refl refl]
  from wf have w: "ds < length (stateMaps s)" "dt < length (refArrays s)"
    "q < length (refArrays s)" "dt \<noteq> q"
    "\<forall>e\<in>set (stateMaps s ! ds). snd e < length (stateObjs s)"
    "\<forall>r\<in>set (refArrays s ! dt). r < length (transitionObjs s)"
    "\<forall>r\<in>set (refArrays s ! q). r < length (strLists s)"
    by (simp_all add: wfWork_def list_all_iff)
  consider (empty) "?N = []" | (old) "?N \<noteq> []" "Map_has (absMap s ds) ?nk"
    | (new) "?N \<noteq> []" "\<not> Map_has (absMap s ds) ?nk"
    by blast
  then show ?thesis
  proof cases
    case empty
    then have eq: "?s' = ?s3" by (simp add: step)
    have "grows s ds dt q ?s3"
      by (rule growsI [where ext = "[?N, sort ?N]" and sts = "[]" and ts = "[]"
            and m = "stateMaps s ! ds" and rt = "refArrays s ! dt" and rq = "refArrays s ! q"])
         simp
    moreover have "wfWork ?s3 ds dt q"
      using w by (auto simp: wfWork_def list_all_iff)
    moreover have "readWork ?s3 ds dt q = readWork s ds dt q"
      using w by (auto simp: readWork_def absMap_def readTransitions_def readQueue_def nth_append)
    moreover have "dfaSymbolStep (readStates s sa) (readTransitions s ta) (?L ! cs) ck c
             (readWork s ds dt q) = readWork s ds dt q"
      using empty by (simp add: dfaSymbolStep_def readWork_def Let_def)
    ultimately show ?thesis unfolding eq by simp
  next
    case old
    let ?s4 = "?s3\<lparr>transitionObjs := transitionObjs s @ [?t],
                   refArrays := (refArrays s)[dt := refArrays s ! dt @ [length (transitionObjs s)]]\<rparr>"
    from old have eq: "?s' = ?s4" by (simp add: step)
    have "grows s ds dt q ?s4"
      by (rule growsI [where ext = "[?N, sort ?N]" and sts = "[]" and ts = "[?t]"
            and m = "stateMaps s ! ds"
            and rt = "refArrays s ! dt @ [length (transitionObjs s)]"
            and rq = "refArrays s ! q"])
         (use w in \<open>simp add: list_update_swap [of dt q]\<close>)
    moreover have "wfWork ?s4 ds dt q"
      using w by (auto simp: wfWork_def list_all_iff)
    moreover have "readWork ?s4 ds dt q =
        (absMap s ds, readTransitions s dt @ [?t], readQueue s q)"
      using w by (auto simp: readWork_def absMap_def readTransitions_def readQueue_def nth_append)
    moreover have "dfaSymbolStep (readStates s sa) (readTransitions s ta) (?L ! cs) ck c
             (readWork s ds dt q) = (absMap s ds, readTransitions s dt @ [?t], readQueue s q)"
      using old by (simp add: dfaSymbolStep_def readWork_def Let_def)
    ultimately show ?thesis unfolding eq by simp
  next
    case new
    let ?s4 = "?s3\<lparr>stateObjs := stateObjs s @ [?st],
                    stateMaps := (stateMaps s)
                       [ds := stateMaps s ! ds @ [(?nk, length (stateObjs s))]],
                    transitionObjs := transitionObjs s @ [?t],
                    refArrays := (refArrays s)
                       [q := refArrays s ! q @ [length ?L],
                        dt := refArrays s ! dt @ [length (transitionObjs s)]]\<rparr>"
    from new w have eq: "?s' = ?s4" by (simp add: step)
    have "grows s ds dt q ?s4"
      by (rule growsI [where ext = "[?N, sort ?N]" and sts = "[?st]" and ts = "[?t]"
            and m = "stateMaps s ! ds @ [(?nk, length (stateObjs s))]"
            and rt = "refArrays s ! dt @ [length (transitionObjs s)]"
            and rq = "refArrays s ! q @ [length ?L]"])
         (use w in \<open>simp add: list_update_swap [of dt q]\<close>)
    moreover have "wfWork ?s4 ds dt q"
      using w by (auto simp: wfWork_def list_all_iff)
    moreover have "readWork ?s4 ds dt q =
        (absMap s ds @ [(?nk, ?st)], readTransitions s dt @ [?t], readQueue s q @ [?N])"
      using w by (auto simp: readWork_def absMap_def readTransitions_def readQueue_def nth_append)
    moreover have "dfaSymbolStep (readStates s sa) (readTransitions s ta) (?L ! cs) ck c
             (readWork s ds dt q) =
        (absMap s ds @ [(?nk, ?st)], readTransitions s dt @ [?t], readQueue s q @ [?N])"
      using new by (simp add: dfaSymbolStep_def readWork_def Let_def Map_set_def)
    ultimately show ?thesis unfolding eq by simp
  qed
qed

lemma grows_refl: "grows s ds dt q s"
  by (rule growsI [where ext = "[]" and sts = "[]" and ts = "[]"
        and m = "stateMaps s ! ds" and rt = "refArrays s ! dt" and rq = "refArrays s ! q"])
     simp

lemma grows_trans:
  assumes "grows s ds dt q s1" "grows s1 ds dt q s2" "dt \<noteq> q"
  shows "grows s ds dt q s2"
proof -
  from assms(1) obtain ext sts ts m rt rq where
    s1: "s1 = s\<lparr>strLists := strLists s @ ext, stateObjs := stateObjs s @ sts,
               transitionObjs := transitionObjs s @ ts,
               stateMaps := (stateMaps s)[ds := m],
               refArrays := (refArrays s)[dt := rt, q := rq]\<rparr>"
    unfolding grows_def by blast
  from assms(2) obtain ext' sts' ts' m' rt' rq' where
    s2: "s2 = s1\<lparr>strLists := strLists s1 @ ext', stateObjs := stateObjs s1 @ sts',
               transitionObjs := transitionObjs s1 @ ts',
               stateMaps := (stateMaps s1)[ds := m'],
               refArrays := (refArrays s1)[dt := rt', q := rq']\<rparr>"
    unfolding grows_def by blast
  show ?thesis
    by (rule growsI [where ext = "ext @ ext'" and sts = "sts @ sts'" and ts = "ts @ ts'"
          and m = m' and rt = rt' and rq = rq'])
       (simp add: s1 s2 list_update_pair_again [OF assms(3)])
qed

lemma grows_facts:
  assumes "grows s ds dt q s'"
  shows "length (strLists s) \<le> length (strLists s')"
    "\<And>b. b < length (strLists s) \<Longrightarrow> strLists s' ! b = strLists s ! b"
    "\<And>r. r < length (stateObjs s) \<Longrightarrow> stateObjs s' ! r = stateObjs s ! r"
    "\<And>r. r < length (transitionObjs s) \<Longrightarrow> transitionObjs s' ! r = transitionObjs s ! r"
    "\<And>b. b \<noteq> dt \<Longrightarrow> b \<noteq> q \<Longrightarrow> refArrays s' ! b = refArrays s ! b"
    "length (refArrays s') = length (refArrays s)"
    "length (stateObjs s) \<le> length (stateObjs s')"
    "length (transitionObjs s) \<le> length (transitionObjs s')"
    "stringMaps s' = stringMaps s" "automata s' = automata s"
  using assms unfolding grows_def by (auto simp: nth_append)

lemma grows_wfStates:
  assumes "grows s ds dt q s'" "wfStates s b" "b \<noteq> dt" "b \<noteq> q"
  shows "wfStates s' b" "readStates s' b = readStates s b"
  using assms(2) grows_facts(5) [OF assms(1,3,4)] grows_facts(3,6,7) [OF assms(1)]
  unfolding wfStates_def readStates_def
  by (auto simp: list_all_iff)

lemma grows_wfTransitions:
  assumes "grows s ds dt q s'" "wfTransitions s b" "b \<noteq> dt" "b \<noteq> q"
  shows "wfTransitions s' b" "readTransitions s' b = readTransitions s b"
  using assms(2) grows_facts(5) [OF assms(1,3,4)] grows_facts(4,6,8) [OF assms(1)]
  unfolding wfTransitions_def readTransitions_def
  by (auto simp: list_all_iff)

lemma dfaSymbolStep_store_fold:
  assumes wf: "wfWork s ds dt q" and cs: "cs < length (strLists s)"
    and sa: "wfStates s sa" "sa \<noteq> dt" "sa \<noteq> q"
    and ta: "wfTransitions s ta" "ta \<noteq> dt" "ta \<noteq> q"
  shows "grows s ds dt q (fold (dfaSymbolStep_store sa ta ds dt q cs ck) alph s) \<and>
         wfWork (fold (dfaSymbolStep_store sa ta ds dt q cs ck) alph s) ds dt q \<and>
         readWork (fold (dfaSymbolStep_store sa ta ds dt q cs ck) alph s) ds dt q =
           fold (dfaSymbolStep (readStates s sa) (readTransitions s ta) (strLists s ! cs) ck)
             alph (readWork s ds dt q)"
proof -
  let ?P = "\<lambda>s'. grows s ds dt q s' \<and> wfWork s' ds dt q"
  let ?f = "dfaSymbolStep_store sa ta ds dt q cs ck"
  have dq: "dt \<noteq> q" using wf by (simp add: wfWork_def)
  have "?P (fold ?f alph s) \<and>
        (\<lambda>s. readWork s ds dt q) (fold ?f alph s) =
          fold (dfaSymbolStep (readStates s sa) (readTransitions s ta) (strLists s ! cs) ck)
            alph ((\<lambda>s. readWork s ds dt q) s)"
  proof (rule fold_store [where P = ?P])
    show "?P s" using wf by (simp add: grows_refl)
  next
    fix c s1
    assume "?P s1"
    then have s1: "grows s ds dt q s1" "wfWork s1 ds dt q" by simp_all
    note f = grows_facts [OF s1(1)]
    have cs1: "cs < length (strLists s1)" using cs f(1) by simp
    from dfaSymbolStep_store_sim [OF s1(2) cs1, of sa ta ck c]
    show "?P (?f c s1) \<and>
          readWork (?f c s1) ds dt q =
            dfaSymbolStep (readStates s sa) (readTransitions s ta) (strLists s ! cs) ck c
              (readWork s1 ds dt q)"
      using grows_trans [OF s1(1) _ dq] grows_wfStates(2) [OF s1(1) sa]
        grows_wfTransitions(2) [OF s1(1) ta] f(2) [OF cs]
      by simp
  qed
  then show ?thesis by simp
qed

lemma nfaToDFALoop_store_sim:
  assumes "wfWork s ds dt q" "wfStates s sa" "sa \<noteq> dt" "sa \<noteq> q"
    and "wfTransitions s ta" "ta \<noteq> dt" "ta \<noteq> q" "aa < length (strLists s)"
    and "sts = readStates s sa" "trs = readTransitions s ta" "alph = strLists s ! aa"
    and "readWork s ds dt q = (dfaStates, dfaTransitions, queue)"
  shows "\<exists>s'. nfaToDFALoop_store sa ta aa ds dt q s = Some s' \<and> grows s ds dt q s' \<and>
           wfWork s' ds dt q \<and>
           (absMap s' ds, readTransitions s' dt) =
             nfaToDFALoop sts trs alph dfaStates dfaTransitions queue"
  using assms
proof (induction sts trs alph dfaStates dfaTransitions queue arbitrary: s
    rule: nfaToDFALoop.induct)
  case (1 sts trs alph dfaStates dfaTransitions queue)
  note wf = "1.prems"(1) and sa = "1.prems"(2-4) and ta = "1.prems"(5-7) and aa = "1.prems"(8)
  note rd = "1.prems"(9-11) and work = "1.prems"(12)
  have dq: "dt \<noteq> q" using wf by (simp add: wfWork_def)
  have qlen: "length queue = length (refArrays s ! q)"
    using work by (auto simp: readWork_def readQueue_def)
  show ?case
  proof (cases "length queue > 0")
    case False
    then have "nfaToDFALoop sts trs alph dfaStates dfaTransitions queue =
                 (dfaStates, dfaTransitions)"
      by (subst nfaToDFALoop.simps) simp
    moreover have "nfaToDFALoop_store sa ta aa ds dt q s = Some s"
      using False qlen by (subst nfaToDFALoop_store.simps) simp
    ultimately show ?thesis
      using wf work by (simp add: grows_refl readWork_def)
  next
    case True
    let ?cs = "hd (refArrays s ! q)"
    let ?L = "strLists s"
    let ?s2 = "s\<lparr>refArrays := (refArrays s)[q := tl (refArrays s ! q)],
                  strLists := ?L @ [sort (?L ! ?cs)]\<rparr>"
    let ?ck = "setKey (hd queue)"
    let ?s4 = "fold (dfaSymbolStep_store sa ta ds dt q ?cs ?ck) alph ?s2"
    from wf have w: "ds < length (stateMaps s)" "dt < length (refArrays s)"
      "q < length (refArrays s)"
      "\<forall>e\<in>set (stateMaps s ! ds). snd e < length (stateObjs s)"
      "\<forall>r\<in>set (refArrays s ! dt). r < length (transitionObjs s)"
      "\<forall>r\<in>set (refArrays s ! q). r < length (strLists s)"
      by (simp_all add: wfWork_def list_all_iff)
    have ne: "refArrays s ! q \<noteq> []" using True qlen by auto
    then have cs: "?cs < length ?L" using w(6) by simp
    have hdq: "hd queue = ?L ! ?cs"
      using work ne by (auto simp: readWork_def readQueue_def hd_map)
    have unfold_st: "nfaToDFALoop_store sa ta aa ds dt q s = nfaToDFALoop_store sa ta aa ds dt q ?s4"
      using True qlen aa rd(3) hdq
      by (subst nfaToDFALoop_store.simps)
         (simp add: shiftRef_def sortedKey_store_eq setKey_def nth_append)
    have g2: "grows s ds dt q ?s2"
      by (rule growsI [where ext = "[sort (?L ! ?cs)]" and sts = "[]" and ts = "[]"
            and m = "stateMaps s ! ds" and rt = "refArrays s ! dt"
            and rq = "tl (refArrays s ! q)"])
         simp
    have tlq: "\<forall>r\<in>set (tl (refArrays s ! q)). r < length (strLists s)"
      using w(6) ne by (auto dest: list.set_sel(2))
    have wf2: "wfWork ?s2 ds dt q"
      using w(1-5) tlq dq by (auto simp: wfWork_def list_all_iff less_Suc_eq)
    have "readQueue ?s2 q = map (\<lambda>r. ?L ! r) (tl (refArrays s ! q))"
      using w(3) tlq by (auto simp: readQueue_def nth_append)
    moreover have "tl queue = map (\<lambda>r. ?L ! r) (tl (refArrays s ! q))"
      using work by (auto simp: readWork_def readQueue_def map_tl)
    moreover have "absMap ?s2 ds = dfaStates" "readTransitions ?s2 dt = dfaTransitions"
      using work w(1-5) dq by (auto simp: readWork_def absMap_def readTransitions_def)
    ultimately have work2: "readWork ?s2 ds dt q = (dfaStates, dfaTransitions, tl queue)"
      by (simp add: readWork_def)
    have cs2: "?cs < length (strLists ?s2)" using cs by simp
    note sa2 = grows_wfStates [OF g2 sa]
    note ta2 = grows_wfTransitions [OF g2 ta]
    from dfaSymbolStep_store_fold [OF wf2 cs2 sa2(1) sa(2,3) ta2(1) ta(2,3), of ?ck alph]
    have s4: "grows ?s2 ds dt q ?s4" "wfWork ?s4 ds dt q"
      "readWork ?s4 ds dt q =
         fold (dfaSymbolStep sts trs (hd queue) ?ck) alph (dfaStates, dfaTransitions, tl queue)"
      using sa2(2) ta2(2) rd(1,2) cs hdq work2 by (simp_all add: nth_append)
    obtain x y z where run:
      "fold (dfaSymbolStep sts trs (hd queue) ?ck) alph (dfaStates, dfaTransitions, tl queue) =
         (x, y, z)"
      by (cases "fold (dfaSymbolStep sts trs (hd queue) ?ck) alph
                   (dfaStates, dfaTransitions, tl queue)")
    have unfold: "nfaToDFALoop sts trs alph dfaStates dfaTransitions queue =
                    nfaToDFALoop sts trs alph x y z"
      using True run by (subst nfaToDFALoop.simps) simp
    have g4: "grows s ds dt q ?s4"
      by (rule grows_trans [OF g2 s4(1) dq])
    note sa4 = grows_wfStates [OF g4 sa]
    note ta4 = grows_wfTransitions [OF g4 ta]
    note f4 = grows_facts [OF g4]
    have "\<exists>s'. nfaToDFALoop_store sa ta aa ds dt q ?s4 = Some s' \<and> grows ?s4 ds dt q s' \<and>
            wfWork s' ds dt q \<and>
            (absMap s' ds, readTransitions s' dt) = nfaToDFALoop sts trs alph x y z"
    proof (rule "1.IH" [OF True run [symmetric] refl])
      show "wfWork ?s4 ds dt q" by (rule s4(2))
      show "wfStates ?s4 sa" by (rule sa4(1))
      show "sa \<noteq> dt" "sa \<noteq> q" "ta \<noteq> dt" "ta \<noteq> q" by (rule sa ta)+
      show "wfTransitions ?s4 ta" by (rule ta4(1))
      show "aa < length (strLists ?s4)" using aa f4(1) by simp
      show "sts = readStates ?s4 sa" using sa4(2) rd(1) by simp
      show "trs = readTransitions ?s4 ta" using ta4(2) rd(2) by simp
      show "alph = strLists ?s4 ! aa" using f4(2) [OF aa] rd(3) by simp
      show "readWork ?s4 ds dt q = (x, y, z)" using s4(3) run by simp
    qed
    then obtain s' where s': "nfaToDFALoop_store sa ta aa ds dt q ?s4 = Some s'"
      "grows ?s4 ds dt q s'" "wfWork s' ds dt q"
      "(absMap s' ds, readTransitions s' dt) = nfaToDFALoop sts trs alph x y z"
      by blast
    show ?thesis
      unfolding unfold_st unfold using s' grows_trans [OF g4 s'(2) dq] by simp
  qed
qed

lemma stateMappingOf_numberKey:
  "stateMappingOf dfaStates = fst (fold numberKey (map fst dfaStates) ([], 0))"
  by (simp add: stateMappingOf_def numberKey_def [abs_def] fold_map comp_def)

lemma renameVisit_store_fold:
  assumes "sm < length (stringMaps s)"
  shows "fold (renameVisit_store sm) es (s, k) =
           (s\<lparr>stringMaps := (stringMaps s)
               [sm := fst (fold numberKey (map fst es) (stringMaps s ! sm, k))]\<rparr>,
            snd (fold numberKey (map fst es) (stringMaps s ! sm, k)))"
  using assms
proof (induction es arbitrary: s k)
  case Nil
  then show ?case by simp
next
  case (Cons e es)
  let ?m1 = "Map_set (fst e) (ustr ''q'' @ digits k) (stringMaps s ! sm)"
  let ?s1 = "s\<lparr>stringMaps := (stringMaps s)[sm := ?m1]\<rparr>"
  have step: "renameVisit_store sm e (s, k) = (?s1, k + 1)"
    by (simp add: renameVisit_store_def setStringMap_def)
  have nk: "numberKey (fst e) (stringMaps s ! sm, k) = (?m1, k + 1)"
    by (simp add: numberKey_def)
  have "fold (renameVisit_store sm) es (?s1, k + 1) =
          (?s1\<lparr>stringMaps := (stringMaps ?s1)
               [sm := fst (fold numberKey (map fst es) (stringMaps ?s1 ! sm, k + 1))]\<rparr>,
            snd (fold numberKey (map fst es) (stringMaps ?s1 ! sm, k + 1)))"
    using Cons.prems by (intro Cons.IH) simp
  then show ?case
    using Cons.prems by (simp add: step nk)
qed

lemma renamedStateOf_store_mapObjs:
  assumes "list_all (\<lambda>r. r < length (stateObjs s)) rs"
  shows "mapObjs rs (renamedStateOf_store sm) s =
           ([length (stateObjs s) ..< length (stateObjs s) + length rs],
            s\<lparr>stateObjs := stateObjs s @
                 map (\<lambda>r. renameState (stringMaps s ! sm) (stateObjs s ! r)) rs\<rparr>)"
  using assms
proof (induction rs arbitrary: s)
  case Nil
  then show ?case by simp
next
  case (Cons r rs)
  let ?v = "renameState (stringMaps s ! sm) (stateObjs s ! r)"
  let ?s1 = "s\<lparr>stateObjs := stateObjs s @ [?v]\<rparr>"
  have step: "renamedStateOf_store sm r s = (length (stateObjs s), ?s1)"
    by (simp add: renamedStateOf_store_def newStateObj_def renameState_def)
  have rs1: "list_all (\<lambda>r. r < length (stateObjs ?s1)) rs"
    using Cons.prems by (auto simp: list_all_iff)
  have mp: "map (\<lambda>r. renameState (stringMaps s ! sm) ((stateObjs s @ [?v]) ! r)) rs =
            map (\<lambda>r. renameState (stringMaps s ! sm) (stateObjs s ! r)) rs"
    using Cons.prems by (auto simp: list_all_iff nth_append)
  have up: "[length (stateObjs s) ..< length (stateObjs s) + length (r # rs)] =
            length (stateObjs s) # [Suc (length (stateObjs s)) ..< Suc (length (stateObjs s)) + length rs]"
    by (simp add: upt_conv_Cons del: upt_Suc)
  show ?case
    unfolding up using Cons.IH [OF rs1]
    by (simp add: step mp del: upt_Suc)
qed

lemma renamedTransitionOf_store_mapObjs:
  assumes "list_all (\<lambda>r. r < length (transitionObjs s)) rs"
  shows "mapObjs rs (renamedTransitionOf_store sm) s =
           ([length (transitionObjs s) ..< length (transitionObjs s) + length rs],
            s\<lparr>transitionObjs := transitionObjs s @
                 map (\<lambda>r. renameTransition (stringMaps s ! sm) (transitionObjs s ! r)) rs\<rparr>)"
  using assms
proof (induction rs arbitrary: s)
  case Nil
  then show ?case by simp
next
  case (Cons r rs)
  let ?v = "renameTransition (stringMaps s ! sm) (transitionObjs s ! r)"
  let ?s1 = "s\<lparr>transitionObjs := transitionObjs s @ [?v]\<rparr>"
  have step: "renamedTransitionOf_store sm r s = (length (transitionObjs s), ?s1)"
    by (simp add: renamedTransitionOf_store_def newTransitionObj_def renameTransition_def)
  have rs1: "list_all (\<lambda>r. r < length (transitionObjs ?s1)) rs"
    using Cons.prems by (auto simp: list_all_iff)
  have mp: "map (\<lambda>r. renameTransition (stringMaps s ! sm) ((transitionObjs s @ [?v]) ! r)) rs =
            map (\<lambda>r. renameTransition (stringMaps s ! sm) (transitionObjs s ! r)) rs"
    using Cons.prems by (auto simp: list_all_iff nth_append)
  have up: "[length (transitionObjs s) ..< length (transitionObjs s) + length (r # rs)] =
            length (transitionObjs s) #
              [Suc (length (transitionObjs s)) ..< Suc (length (transitionObjs s)) + length rs]"
    by (simp add: upt_conv_Cons del: upt_Suc)
  show ?case
    unfolding up using Cons.IH [OF rs1]
    by (simp add: step mp del: upt_Suc)
qed

lemma readTransitions_new:
  assumes "refArrays s ! k = [length xs ..< length xs + length ys]" "transitionObjs s = xs @ ys"
  shows "readTransitions s k = ys"
  unfolding readTransitions_def assms by (rule map_nth_upt_append)

lemma nfaToDFA_rename:
  "nfaToDFA A =
     (case find isStart (states A) of
        None \<Rightarrow> \<lparr>states = [], transitions = [], alphabet = alphabet A\<rparr>
      | Some startState \<Rightarrow>
          (case nfaToDFALoop (states A) (transitions A) (alphabet A)
                  [(sortedKey [sid startState],
                    \<lparr>sid = setKey [sid startState], isStart = True,
                     isAccept = anyAccept (states A) [sid startState]\<rparr>)]
                  [] [[sid startState]] of
             (dfaStates, dfaTransitions) \<Rightarrow>
               \<lparr>states = map (renameState (stateMappingOf dfaStates)) (map snd dfaStates),
                transitions = map (renameTransition (stateMappingOf dfaStates)) dfaTransitions,
                alphabet = alphabet A\<rparr>))"
  by (simp add: nfaToDFA_def Let_def renameState_def renameTransition_def Map_set_def Map_has_def
      setKey_def split: option.split prod.split)

lemma find_map_option:
  "find P (map f xs) = map_option f (find (\<lambda>x. P (f x)) xs)"
  by (induction xs) auto

lemma find_store_read:
  "find isStart (readStates s sa) =
     map_option (\<lambda>r. stateObjs s ! r) (find (\<lambda>r. isStart (stateObjs s ! r)) (refArrays s ! sa))"
  unfolding readStates_def by (rule find_map_option)

lemma nfaToDFA_store_no_start:
  assumes "isAutomaton s a" "automata s ! a = (sa, ta, aa)"
    and "find (\<lambda>r. isStart (stateObjs s ! r)) (refArrays s ! sa) = None"
  shows "\<exists>s'. nfaToDFA_store a s = Some (length (automata s), s') \<and> extends s s' \<and>
           isAutomaton s' (length (automata s)) \<and>
           readAutomaton s' (length (automata s)) = nfaToDFA (readAutomaton s a) \<and>
           snd (snd (automata s' ! length (automata s))) = snd (snd (automata s ! a))"
proof -
  let ?n = "length (refArrays s)"
  let ?s' = "s\<lparr>refArrays := refArrays s @ [[], []],
                automata := automata s @ [(?n, Suc ?n, aa)]\<rparr>"
  have aa: "aa < length (strLists s)"
    using assms(1,2) by (simp add: isAutomaton_def)
  have "nfaToDFA_store a s = Some (length (automata s), ?s')"
    using assms(2,3) by (simp add: nfaToDFA_store_def newRefArray_def newAutomaton_def)
  moreover have "extends s ?s'"
    by (simp add: extends_def)
  moreover have "isAutomaton ?s' (length (automata s))"
    using aa by (simp add: isAutomaton_def nth_append)
  moreover have "readAutomaton ?s' (length (automata s)) =
                   \<lparr>states = [], transitions = [], alphabet = strLists s ! aa\<rparr>"
    by (simp add: readAutomaton_def readStates_def readTransitions_def nth_append)
  moreover have "nfaToDFA (readAutomaton s a) =
                   \<lparr>states = [], transitions = [], alphabet = strLists s ! aa\<rparr>"
    using assms(2,3) by (simp add: nfaToDFA_rename readAutomaton_def find_store_read)
  ultimately show ?thesis using assms(2) by simp
qed

lemma nfaToDFA_store_start:
  assumes "isAutomaton s a" "automata s ! a = (sa, ta, aa)"
    and "find (\<lambda>r. isStart (stateObjs s ! r)) (refArrays s ! sa) = Some r0"
  shows "\<exists>s'. nfaToDFA_store a s = Some (length (automata s), s') \<and> extends s s' \<and>
           isAutomaton s' (length (automata s)) \<and>
           readAutomaton s' (length (automata s)) = nfaToDFA (readAutomaton s a) \<and>
           snd (snd (automata s' ! length (automata s))) = snd (snd (automata s ! a))"
proof -
  let ?RA = "refArrays s" and ?L = "strLists s" and ?SO = "stateObjs s"
  let ?TO = "transitionObjs s" and ?SM = "stateMaps s" and ?GM = "stringMaps s"
  let ?ds = "length ?SM" and ?dt = "length ?RA" and ?q = "Suc (length ?RA)"
  let ?sts = "readStates s sa" and ?trs = "readTransitions s ta" and ?alph = "?L ! aa"
  let ?i = "sid (?SO ! r0)"
  let ?key = "sortedKey [?i]"
  let ?st0 = "\<lparr>sid = setKey [?i], isStart = True, isAccept = anyAccept ?sts [?i]\<rparr>"
  let ?s0 = "s\<lparr>strLists := ?L @ [[?i], sort [?i]],
                stateObjs := ?SO @ [?st0],
                stateMaps := ?SM @ [[(?key, length ?SO)]],
                refArrays := ?RA @ [[], [length ?L]]\<rparr>"
  have wf: "sa < ?dt" "ta < ?dt" "aa < length ?L"
    "list_all (\<lambda>r. r < length ?SO) (?RA ! sa)"
    "list_all (\<lambda>r. r < length ?TO) (?RA ! ta)"
    using assms(1,2) by (simp_all add: isAutomaton_def)
  have wf0: "wfWork ?s0 ?ds ?dt ?q"
    by (simp add: wfWork_def nth_append)
  have sa0: "wfStates ?s0 sa" "sa \<noteq> ?dt" "sa \<noteq> ?q"
    and ta0: "wfTransitions ?s0 ta" "ta \<noteq> ?dt" "ta \<noteq> ?q"
    and aa0: "aa < length (strLists ?s0)"
    using wf by (auto simp: wfStates_def wfTransitions_def nth_append list_all_iff)
  have rd0: "?sts = readStates ?s0 sa" "?trs = readTransitions ?s0 ta" "?alph = strLists ?s0 ! aa"
    using wf by (auto simp: readStates_def readTransitions_def nth_append list_all_iff)
  have work0: "readWork ?s0 ?ds ?dt ?q = ([(?key, ?st0)], [], [[?i]])"
    by (simp add: readWork_def absMap_def readTransitions_def readQueue_def nth_append)
  from nfaToDFALoop_store_sim [OF wf0 sa0 ta0 aa0 rd0 work0]
  obtain s7 where s7: "nfaToDFALoop_store sa ta aa ?ds ?dt ?q ?s0 = Some s7"
    "grows ?s0 ?ds ?dt ?q s7" "wfWork s7 ?ds ?dt ?q"
    "(absMap s7 ?ds, readTransitions s7 ?dt) =
       nfaToDFALoop ?sts ?trs ?alph [(?key, ?st0)] [] [[?i]]"
    by blast
  from s7(2) obtain ext sts ts m rt rq where
    "s7 = ?s0\<lparr>strLists := strLists ?s0 @ ext, stateObjs := stateObjs ?s0 @ sts,
               transitionObjs := transitionObjs ?s0 @ ts,
               stateMaps := (stateMaps ?s0)[?ds := m],
               refArrays := (refArrays ?s0)[?dt := rt, ?q := rq]\<rparr>"
    unfolding grows_def by blast
  then have s7_eq: "s7 = s\<lparr>strLists := ?L @ ([[?i], sort [?i]] @ ext),
                             stateObjs := ?SO @ (?st0 # sts),
                             transitionObjs := ?TO @ ts,
                             stateMaps := ?SM @ [m],
                             refArrays := ?RA @ [rt, rq]\<rparr>"
    by (simp add: list_update_append)
  let ?SO7 = "?SO @ (?st0 # sts)" and ?TO7 = "?TO @ ts"
  have m: "list_all (\<lambda>e. snd e < length ?SO7) m"
    and rt: "list_all (\<lambda>r. r < length ?TO7) rt"
    using s7(3) by (simp_all add: wfWork_def s7_eq nth_append)
  obtain dfaStates dfaTransitions where loop:
    "nfaToDFALoop ?sts ?trs ?alph [(?key, ?st0)] [] [[?i]] = (dfaStates, dfaTransitions)"
    by (cases "nfaToDFALoop ?sts ?trs ?alph [(?key, ?st0)] [] [[?i]]")
  have abs7: "dfaStates = map (\<lambda>e. (fst e, ?SO7 ! snd e)) m"
    "dfaTransitions = map (\<lambda>r. ?TO7 ! r) rt"
    using s7(4) loop by (simp_all add: absMap_def readTransitions_def s7_eq)
  have len7: "length dfaStates = length m" "length dfaTransitions = length rt"
    by (simp_all add: abs7)
  let ?mp = "stateMappingOf dfaStates"
  let ?newS = "map (renameState ?mp) (map snd dfaStates)"
  let ?newT = "map (renameTransition ?mp) dfaTransitions"
  let ?s8 = "s7\<lparr>stringMaps := ?GM @ [[]]\<rparr>"
  let ?s9 = "s7\<lparr>stringMaps := ?GM @ [?mp]\<rparr>"
  have gm7: "stringMaps s7 = ?GM" by (simp add: s7_eq)
  have "fold (renameVisit_store (length ?GM)) m (?s8, 0) =
          (?s8\<lparr>stringMaps := (stringMaps ?s8)
               [length ?GM := fst (fold numberKey (map fst m) (stringMaps ?s8 ! length ?GM, 0))]\<rparr>,
            snd (fold numberKey (map fst m) (stringMaps ?s8 ! length ?GM, 0)))"
    by (rule renameVisit_store_fold) simp
  moreover have "map fst dfaStates = map fst m"
    by (simp add: abs7 comp_def)
  ultimately have s9: "fold (renameVisit_store (length ?GM)) m (?s8, 0) =
          (?s9, snd (fold numberKey (map fst m) ([], 0)))"
    by (simp add: stateMappingOf_numberKey)
  let ?s10 = "?s9\<lparr>refArrays := refArrays ?s9 @ [map snd m]\<rparr>"
  let ?rsS = "[length ?SO7 ..< length ?SO7 + length ?newS]"
  let ?rsT = "[length ?TO7 ..< length ?TO7 + length ?newT]"
  have "mapObjs (map snd m) (renamedStateOf_store (length ?GM)) ?s10 =
          ([length (stateObjs ?s10) ..< length (stateObjs ?s10) + length (map snd m)],
           ?s10\<lparr>stateObjs := stateObjs ?s10 @
                 map (\<lambda>r. renameState (stringMaps ?s10 ! length ?GM) (stateObjs ?s10 ! r))
                   (map snd m)\<rparr>)"
    by (rule renamedStateOf_store_mapObjs) (use m in \<open>simp add: s7_eq list_all_iff\<close>)
  moreover have "map (\<lambda>r. renameState ?mp (?SO7 ! r)) (map snd m) = ?newS"
    by (simp add: abs7 comp_def)
  ultimately have s11: "mapObjs (map snd m) (renamedStateOf_store (length ?GM)) ?s10 =
          (?rsS, ?s10\<lparr>stateObjs := ?SO7 @ ?newS\<rparr>)"
    by (simp add: s7_eq len7 del: upt_Suc)
  let ?s11 = "?s10\<lparr>stateObjs := ?SO7 @ ?newS\<rparr>"
  let ?s12 = "?s11\<lparr>refArrays := refArrays ?s11 @ [?rsS]\<rparr>"
  have "mapObjs rt (renamedTransitionOf_store (length ?GM)) ?s12 =
          ([length (transitionObjs ?s12) ..< length (transitionObjs ?s12) + length rt],
           ?s12\<lparr>transitionObjs := transitionObjs ?s12 @
                 map (\<lambda>r. renameTransition (stringMaps ?s12 ! length ?GM) (transitionObjs ?s12 ! r))
                   rt\<rparr>)"
    by (rule renamedTransitionOf_store_mapObjs) (use rt in \<open>simp add: s7_eq list_all_iff\<close>)
  moreover have "map (\<lambda>r. renameTransition ?mp (?TO7 ! r)) rt = ?newT"
    by (simp add: abs7 comp_def)
  ultimately have s13: "mapObjs rt (renamedTransitionOf_store (length ?GM)) ?s12 =
          (?rsT, ?s12\<lparr>transitionObjs := ?TO7 @ ?newT\<rparr>)"
    by (simp add: s7_eq len7 del: upt_Suc)
  let ?s13 = "?s12\<lparr>transitionObjs := ?TO7 @ ?newT\<rparr>"
  let ?s14 = "?s13\<lparr>refArrays := refArrays ?s13 @ [?rsT]\<rparr>"
  let ?s' = "?s14\<lparr>automata := automata ?s14 @ [(?dt + 3, ?dt + 4, aa)]\<rparr>"
  have run: "nfaToDFA_store a s = Some (length (automata s), ?s')"
    using assms(2,3) wf s7(1) s9 s11 s13 unfolding s7_eq
    by (simp add: nfaToDFA_store_def newStateMap_def newRefArray_def newStrList_def
        sortedKey_store_eq newStateObj_def anyAccept_store_read setStateMap_def pushRef_def
        Map_set_def Map_has_def setKey_def readStates_def nth_append list_update_append
        newStringMap_def newAutomaton_def del: upt_Suc)
  have ext: "extends s ?s'"
    by (simp add: extends_def s7_eq)
  have cells: "refArrays ?s' ! (?dt + 3) = ?rsS" "refArrays ?s' ! (?dt + 4) = ?rsT"
    "automata ?s' ! length (automata s) = (?dt + 3, ?dt + 4, aa)"
    "strLists ?s' ! aa = ?alph" "stateObjs ?s' = ?SO7 @ ?newS"
    "transitionObjs ?s' = ?TO7 @ ?newT"
    using wf by (simp_all add: s7_eq nth_append del: upt_Suc)
  have rdS: "readStates ?s' (?dt + 3) = ?newS"
    by (rule readStates_new [OF cells(1) cells(5)])
  have rdT: "readTransitions ?s' (?dt + 4) = ?newT"
    by (rule readTransitions_new [OF cells(2) cells(6)])
  have isA: "isAutomaton ?s' (length (automata s))"
    using wf by (simp add: isAutomaton_def s7_eq nth_append list_all_iff del: upt_Suc)
  have "readAutomaton ?s' (length (automata s)) =
          \<lparr>states = ?newS, transitions = ?newT, alphabet = ?alph\<rparr>"
    unfolding readAutomaton_def cells(3) using rdS rdT cells(4) by simp
  moreover have "nfaToDFA (readAutomaton s a) =
          \<lparr>states = ?newS, transitions = ?newT, alphabet = ?alph\<rparr>"
    using assms(2,3) loop by (simp add: nfaToDFA_rename readAutomaton_def find_store_read)
  ultimately show ?thesis
    using run ext isA cells(3) assms(2) by simp
qed

lemma nfaToDFA_store_correct:
  assumes "isAutomaton s a"
  shows "\<exists>s'. nfaToDFA_store a s = Some (length (automata s), s') \<and> extends s s' \<and>
           isAutomaton s' (length (automata s)) \<and>
           readAutomaton s' (length (automata s)) = nfaToDFA (readAutomaton s a) \<and>
           snd (snd (automata s' ! length (automata s))) = snd (snd (automata s ! a))"
proof -
  obtain sa ta aa where a: "automata s ! a = (sa, ta, aa)"
    by (cases "automata s ! a")
  show ?thesis
  proof (cases "find (\<lambda>r. isStart (stateObjs s ! r)) (refArrays s ! sa)")
    case None
    then show ?thesis by (rule nfaToDFA_store_no_start [OF assms a])
  next
    case (Some r0)
    then show ?thesis by (rule nfaToDFA_store_start [OF assms a])
  qed
qed

lemma take_eq_nth:
  assumes "take (length xs) ys = xs"
  shows "length xs \<le> length ys" "\<And>i. i < length xs \<Longrightarrow> ys ! i = xs ! i"
proof -
  have "ys = xs @ drop (length xs) ys"
    using assms by (metis append_take_drop_id)
  then obtain zs where ys: "ys = xs @ zs" ..
  show "length xs \<le> length ys" by (simp add: ys)
  show "\<And>i. i < length xs \<Longrightarrow> ys ! i = xs ! i" by (simp add: ys nth_append)
qed

lemma extends_readAutomaton:
  assumes "extends s s'" "isAutomaton s a"
  shows "isAutomaton s' a" "readAutomaton s' a = readAutomaton s a"
proof -
  obtain sa ta aa where a: "automata s ! a = (sa, ta, aa)"
    by (cases "automata s ! a")
  have wf: "a < length (automata s)" "sa < length (refArrays s)" "ta < length (refArrays s)"
    "aa < length (strLists s)"
    "\<forall>r\<in>set (refArrays s ! sa). r < length (stateObjs s)"
    "\<forall>r\<in>set (refArrays s ! ta). r < length (transitionObjs s)"
    using assms(2) a by (simp_all add: isAutomaton_def list_all_iff)
  from assms(1) have e: "take (length (stateObjs s)) (stateObjs s') = stateObjs s"
    "take (length (transitionObjs s)) (transitionObjs s') = transitionObjs s"
    "take (length (refArrays s)) (refArrays s') = refArrays s"
    "take (length (strLists s)) (strLists s') = strLists s"
    "take (length (automata s)) (automata s') = automata s"
    by (simp_all add: extends_def)
  have a': "automata s' ! a = (sa, ta, aa)" "a < length (automata s')"
    using take_eq_nth [OF e(5)] wf(1) a by auto
  have r': "refArrays s' ! sa = refArrays s ! sa" "refArrays s' ! ta = refArrays s ! ta"
    "sa < length (refArrays s')" "ta < length (refArrays s')"
    using take_eq_nth [OF e(3)] wf(2,3) by auto
  have l': "strLists s' ! aa = strLists s ! aa" "aa < length (strLists s')"
    using take_eq_nth [OF e(4)] wf(4) by auto
  have o': "\<forall>r\<in>set (refArrays s ! sa). r < length (stateObjs s') \<and> stateObjs s' ! r = stateObjs s ! r"
    using take_eq_nth [OF e(1)] wf(5) by fastforce
  have t': "\<forall>r\<in>set (refArrays s ! ta).
              r < length (transitionObjs s') \<and> transitionObjs s' ! r = transitionObjs s ! r"
    using take_eq_nth [OF e(2)] wf(6) by fastforce
  show "isAutomaton s' a"
    using a' r' l' o' t' by (simp add: isAutomaton_def list_all_iff)
  show "readAutomaton s' a = readAutomaton s a"
    using a a' r' l' o' t' by (simp add: readAutomaton_def readStates_def readTransitions_def)
qed

subsection \<open>The frame\<close>

text \<open>
  The frame is a property of where the functions write, not of the store: one \<open>add\<close> or
  \<open>push\<close> on an object of \<open>s\<close> gives a store that does not extend \<open>s\<close>.
\<close>

lemma extends_detects_add:
  assumes "a < length (strLists s)" "x \<notin> set (strLists s ! a)"
  shows "\<not> extends s (addStr a x s)"
proof
  assume "extends s (addStr a x s)"
  then have "(strLists s)[a := set_add x (strLists s ! a)] = strLists s"
    by (simp add: extends_def addStr_def)
  then have "set_add x (strLists s ! a) = strLists s ! a"
    using assms(1) by (metis nth_list_update_eq)
  then show False
    using assms(2) by (simp add: set_add_def)
qed

lemma extends_detects_push:
  assumes "a < length (refArrays s)"
  shows "\<not> extends s (pushRef a r s)"
proof
  assume "extends s (pushRef a r s)"
  then have "(refArrays s)[a := refArrays s ! a @ [r]] = refArrays s"
    by (simp add: extends_def pushRef_def)
  then have "refArrays s ! a @ [r] = refArrays s ! a"
    using assms(1) by (metis nth_list_update_eq)
  then show False by simp
qed

lemma exampleStore_automaton: "isAutomaton exampleStore 0"
  by (simp add: isAutomaton_def exampleStore_def)

lemma exampleStore_read:
  "readAutomaton exampleStore 0 =
     \<lparr>states = [\<lparr>sid = ustr ''q0'', isStart = True, isAccept = False\<rparr>,
                \<lparr>sid = ustr ''q1'', isStart = False, isAccept = True\<rparr>],
      transitions = [\<lparr>tfrom = ustr ''q0'', tto = ustr ''q1'', symbol = LAMBDA\<rparr>,
                     \<lparr>tfrom = ustr ''q1'', tto = ustr ''q1'', symbol = ustr ''a''\<rparr>],
      alphabet = [ustr ''a'']\<rparr>"
  by (simp add: readAutomaton_def readStates_def readTransitions_def exampleStore_def)

lemma exampleStore_nfa:
  "nfaLambdaToNFA (readAutomaton exampleStore 0) =
     \<lparr>states = [\<lparr>sid = ustr ''q0'', isStart = True, isAccept = True\<rparr>,
                \<lparr>sid = ustr ''q1'', isStart = False, isAccept = True\<rparr>],
      transitions = [\<lparr>tfrom = ustr ''q0'', tto = ustr ''q1'', symbol = ustr ''a''\<rparr>,
                     \<lparr>tfrom = ustr ''q1'', tto = ustr ''q1'', symbol = ustr ''a''\<rparr>],
      alphabet = [ustr ''a'']\<rparr>"
  unfolding exampleStore_read by code_simp

text \<open>
  Claim C9: neither \<open>nfaLambdaToNFA\<close> nor \<open>nfaToDFA\<close> mutates its input; after a call
  the states (with their flags), the transitions and the alphabet of the argument are as
  they were before, and each function allocates and returns a new \<open>Automaton\<close>.

  On the store: for every store \<open>s\<close> and every automaton \<open>a\<close> of it, each of the two
  functions returns; the store it leaves extends \<open>s\<close>, so that no object of \<open>s\<close> has
  changed, and the argument reads as before; the reference it returns is the reference of
  no object of \<open>s\<close>, and the automaton at it is well formed and is the one that the
  function on values gives for the argument.
\<close>

theorem transformations_leave_store:
  assumes "isAutomaton s a"
  shows "(\<exists>s'. nfaLambdaToNFA_store a s = Some (length (automata s), s') \<and> extends s s' \<and>
            readAutomaton s' a = readAutomaton s a \<and>
            isAutomaton s' (length (automata s)) \<and>
            readAutomaton s' (length (automata s)) = nfaLambdaToNFA (readAutomaton s a)) \<and>
         (\<exists>s'. nfaToDFA_store a s = Some (length (automata s), s') \<and> extends s s' \<and>
            readAutomaton s' a = readAutomaton s a \<and>
            isAutomaton s' (length (automata s)) \<and>
            readAutomaton s' (length (automata s)) = nfaToDFA (readAutomaton s a))"
proof
  from nfaLambdaToNFA_store_correct [OF assms]
  obtain s' where s': "nfaLambdaToNFA_store a s = Some (length (automata s), s')"
    "extends s s'" "isAutomaton s' (length (automata s))"
    "readAutomaton s' (length (automata s)) = nfaLambdaToNFA (readAutomaton s a)"
    by blast
  show "\<exists>s'. nfaLambdaToNFA_store a s = Some (length (automata s), s') \<and> extends s s' \<and>
            readAutomaton s' a = readAutomaton s a \<and>
            isAutomaton s' (length (automata s)) \<and>
            readAutomaton s' (length (automata s)) = nfaLambdaToNFA (readAutomaton s a)"
    using s' extends_readAutomaton(2) [OF s'(2) assms] by blast
next
  from nfaToDFA_store_correct [OF assms]
  obtain s' where s': "nfaToDFA_store a s = Some (length (automata s), s')"
    "extends s s'" "isAutomaton s' (length (automata s))"
    "readAutomaton s' (length (automata s)) = nfaToDFA (readAutomaton s a)"
    by blast
  show "\<exists>s'. nfaToDFA_store a s = Some (length (automata s), s') \<and> extends s s' \<and>
            readAutomaton s' a = readAutomaton s a \<and>
            isAutomaton s' (length (automata s)) \<and>
            readAutomaton s' (length (automata s)) = nfaToDFA (readAutomaton s a)"
    using s' extends_readAutomaton(2) [OF s'(2) assms] by blast
qed

theorem transformations_leave_store_witness:
  "isAutomaton exampleStore 0 \<and>
   (\<exists>s'. nfaLambdaToNFA_store 0 exampleStore = Some (1, s') \<and> extends exampleStore s' \<and>
      readAutomaton s' 0 = readAutomaton exampleStore 0 \<and>
      readAutomaton s' 1 =
        \<lparr>states = [\<lparr>sid = ustr ''q0'', isStart = True, isAccept = True\<rparr>,
                   \<lparr>sid = ustr ''q1'', isStart = False, isAccept = True\<rparr>],
         transitions = [\<lparr>tfrom = ustr ''q0'', tto = ustr ''q1'', symbol = ustr ''a''\<rparr>,
                        \<lparr>tfrom = ustr ''q1'', tto = ustr ''q1'', symbol = ustr ''a''\<rparr>],
         alphabet = [ustr ''a'']\<rparr>) \<and>
   (\<exists>s'. nfaToDFA_store 0 exampleStore = Some (1, s') \<and> extends exampleStore s' \<and>
      readAutomaton s' 0 = readAutomaton exampleStore 0)"
proof -
  have len: "length (automata exampleStore) = 1"
    by (simp add: exampleStore_def)
  from transformations_leave_store [OF exampleStore_automaton]
  show ?thesis
    unfolding len exampleStore_nfa using exampleStore_automaton by blast
qed

text \<open>
  The \<open>Automaton\<close> object that is returned is new; its alphabet is the array of the
  argument, which the functions read and never write to.
\<close>

lemma nfaLambdaToNFA_store_shares_alphabet:
  assumes "isAutomaton s a" "nfaLambdaToNFA_store a s = Some (r, s')"
  shows "snd (snd (automata s' ! r)) = snd (snd (automata s ! a))"
  using nfaLambdaToNFA_store_correct [OF assms(1)] assms(2) by auto

lemma nfaToDFA_store_shares_alphabet:
  assumes "isAutomaton s a" "nfaToDFA_store a s = Some (r, s')"
  shows "snd (snd (automata s' ! r)) = snd (snd (automata s ! a))"
  using nfaToDFA_store_correct [OF assms(1)] assms(2) by auto

end
